theory Spec2Isabelle
  imports Complex_Main
begin

section \<open>Document trees (types.ts)\<close>

text \<open>
  A \<open>TreeNode\<close> of types.ts has the optional fields \<open>node_id\<close>, \<open>page_index\<close>, \<open>text\<close>
  and \<open>nodes\<close>; an optional field that is missing is \<open>None\<close>.  Every other property a
  node may carry (\<open>[key: string]: any\<close>) is kept in \<open>extra\<close>, whose type is left open
  since no function of utils.ts looks at it.  A character of a \<open>string\<close> stands for one
  code unit of the JavaScript string (those a \<open>char\<close> can hold), so \<open>length\<close> is the
  \<open>.length\<close> of the source.
\<close>

datatype 'x TreeNode = TreeNode
  (node_id: "string option")
  (page_index: "int option")
  (node_text: "string option")
  (nodes: "'x TreeNode list option")
  (extra: 'x)

record 'x PageRangeInfo =
  node :: "'x TreeNode"
  start_index :: "int option"
  end_index :: "int option"

text \<open>The argument of \<open>getAllNodes\<close> and \<open>createNodeMapping\<close>: \<open>TreeNode | TreeNode[]\<close>.\<close>

datatype 'x TreeInput = Single "'x TreeNode" | Many "'x TreeNode list"

text \<open>The result of \<open>createNodeMapping\<close>: one of the two record types of \<open>NodeMapping\<close>.\<close>

datatype 'x NodeMapping =
  NodeMap "(string \<times> 'x TreeNode) list"
| PageRangeMap "(string \<times> 'x PageRangeInfo) list"

section \<open>Plain objects used as dictionaries\<close>

text \<open>
  A \<open>Record<string, T>\<close> that starts as \<open>{}\<close> is the list of its own properties in
  insertion order.  \<open>write_own m k v\<close> writes an own property: an existing property keeps
  its place and takes the new value, a new one is added at the end.  \<open>assign m k v\<close> is
  the statement \<open>m[k] = v\<close> on such an object.  For every key but one it writes an own
  property.  For the key \<open>__proto__\<close> it calls the setter the object inherits from
  \<open>Object.prototype\<close>: the setter changes at most the prototype of the object and
  creates no own property, so the list stays as it is, and an object that starts as
  \<open>{}\<close> never has an own property of that name.  The prototype is not part of the
  model: the statements below are about own properties.  The values stored are plain
  data objects, with writable properties and none of their own named \<open>__proto__\<close>;
  such a property on an object that has become the prototype would hide the setter
  from a later assignment.  None of the statements depends on the order of the list,
  which JavaScript changes for keys that look like array indices.
\<close>

fun write_own :: "('k \<times> 'v) list \<Rightarrow> 'k \<Rightarrow> 'v \<Rightarrow> ('k \<times> 'v) list" where
  "write_own [] k v = [(k, v)]"
| "write_own ((k', v') # m) k v =
     (if k' = k then (k, v) # m else (k', v') # write_own m k v)"

definition assign :: "(string \<times> 'v) list \<Rightarrow> string \<Rightarrow> 'v \<Rightarrow> (string \<times> 'v) list" where
  "assign m k v = (if k = ''__proto__'' then m else write_own m k v)"

text \<open>The one key that \<open>assign\<close> does not write, named for the proofs.\<close>

definition proto_key :: string where
  "proto_key = ''__proto__''"

section \<open>Flattening and indexing a tree (utils.ts)\<close>

text \<open>\<open>tree.nodes ?? []\<close>\<close>

definition children :: "'x TreeNode \<Rightarrow> 'x TreeNode list" where
  "children t = (case nodes t of None \<Rightarrow> [] | Some ns \<Rightarrow> ns)"

lemma size_children: "n \<in> set (children t) \<Longrightarrow> size n < size t"
proof (cases t)
  case (TreeNode i p tx ns x)
  assume mem: "n \<in> set (children t)"
  then obtain l where l: "ns = Some l" "n \<in> set l"
    using TreeNode by (cases ns) (auto simp: children_def)
  have "size n \<le> size_list size l"
    using l(2) by (rule size_list_estimation') simp
  then show ?thesis using TreeNode l by simp
qed

text \<open>
  \<open>getAllNodes\<close> on one node: \<open>[tree, ...nodes.flatMap(getAllNodes)]\<close>.  The elements of
  \<open>nodes\<close> are nodes, never arrays, so the recursive calls all take this branch.
\<close>

function getAllNodes_tree :: "'x TreeNode \<Rightarrow> 'x TreeNode list" where
  "getAllNodes_tree t = t # concat (map getAllNodes_tree (children t))"
  by pat_completeness auto
termination
  by (relation "measure size") (auto simp: size_children)

declare getAllNodes_tree.simps [simp del]

text \<open>\<open>getAllNodes\<close> on the union type: an array is \<open>tree.flatMap(getAllNodes)\<close>.\<close>

fun getAllNodes :: "'x TreeInput \<Rightarrow> 'x TreeNode list" where
  "getAllNodes (Many ts) = concat (map getAllNodes_tree ts)"
| "getAllNodes (Single t) = getAllNodes_tree t"

text \<open>
  \<open>createNodeMapping\<close>.  The test \<open>if (node.node_id)\<close> is false for a missing id and for
  the empty string.  The second loop runs over the indices of \<open>allNodes\<close> and reads
  \<open>allNodes[i + 1]\<close> only under the guard \<open>i + 1 < allNodes.length\<close>.
\<close>

definition createNodeMapping ::
  "'x TreeInput \<Rightarrow> bool \<Rightarrow> int option \<Rightarrow> 'x NodeMapping" where
  "createNodeMapping tree includePageRanges maxPage =
     (let allNodes = getAllNodes tree in
      if \<not> includePageRanges then
        NodeMap (fold (\<lambda>nd m.
          (case node_id nd of
             None \<Rightarrow> m
           | Some k \<Rightarrow> if k \<noteq> [] then assign m k nd else m)) allNodes [])
      else
        PageRangeMap (fold (\<lambda>i m.
          (let nd = allNodes ! i in
           case node_id nd of
             None \<Rightarrow> m
           | Some k \<Rightarrow>
               if k = [] then m
               else
                 let start = page_index nd;
                     end' = (if i + 1 < length allNodes
                            then page_index (allNodes ! (i + 1))
                            else maxPage)
                 in assign m k \<lparr>node = nd, start_index = start, end_index = end'\<rparr>))
          [0..<length allNodes] []))"

text \<open>
  The two loops of \<open>createNodeMapping\<close>, named: the body of the first loop, the entry
  the second loop builds at index \<open>i\<close>, and the body of the second loop.
\<close>

definition nodeMap_step ::
  "'x TreeNode \<Rightarrow> (string \<times> 'x TreeNode) list \<Rightarrow> (string \<times> 'x TreeNode) list" where
  "nodeMap_step nd m =
     (case node_id nd of
        None \<Rightarrow> m
      | Some k \<Rightarrow> if k \<noteq> [] then assign m k nd else m)"

definition entry_at :: "'x TreeNode list \<Rightarrow> int option \<Rightarrow> nat \<Rightarrow> 'x PageRangeInfo" where
  "entry_at allNodes maxPage i =
     \<lparr>node = allNodes ! i, start_index = page_index (allNodes ! i),
      end_index = (if i + 1 < length allNodes
                   then page_index (allNodes ! (i + 1)) else maxPage)\<rparr>"

definition rangeMap_step ::
  "'x TreeNode list \<Rightarrow> int option \<Rightarrow> nat \<Rightarrow>
   (string \<times> 'x PageRangeInfo) list \<Rightarrow> (string \<times> 'x PageRangeInfo) list" where
  "rangeMap_step allNodes maxPage i m =
          (let nd = allNodes ! i in
           case node_id nd of
             None \<Rightarrow> m
           | Some k \<Rightarrow>
               if k = [] then m
               else
                 let start = page_index nd;
                     end' = (if i + 1 < length allNodes
                            then page_index (allNodes ! (i + 1))
                            else maxPage)
                 in assign m k \<lparr>node = nd, start_index = start, end_index = end'\<rparr>)"

text \<open>
  \<open>last_occ all j k i\<close>: among the first \<open>j\<close> nodes of the flattened list, position \<open>i\<close>
  is the last one whose \<open>node_id\<close> is \<open>k\<close>.
\<close>

definition last_occ :: "'x TreeNode list \<Rightarrow> nat \<Rightarrow> string \<Rightarrow> nat \<Rightarrow> bool" where
  "last_occ all j k i \<longleftrightarrow>
     i < j \<and> node_id (all ! i) = Some k \<and>
     (\<forall>i' \<in> set [i + 1..<j]. node_id (all ! i') \<noteq> Some k)"

text \<open>Trees used as concrete inputs: the example of the specification and variants.\<close>

definition leaf :: "string option \<Rightarrow> int option \<Rightarrow> unit TreeNode" where
  "leaf i p = TreeNode i p None None ()"

definition ex_tree :: "unit TreeNode" where
  "ex_tree = TreeNode (Some ''r'') (Some 1) None
     (Some [leaf (Some ''a'') (Some 1), leaf (Some ''b'') (Some 3)]) ()"

text \<open>
  The same tree with every empty \<open>node_id\<close> taken away (the field missing instead of
  \<open>""\<close>), on a node, on the input of \<open>createNodeMapping\<close> and inside an entry.
\<close>

fun absent_if_empty :: "'x TreeNode \<Rightarrow> 'x TreeNode" where
  "absent_if_empty (TreeNode i p tx ns x) =
     TreeNode (if i = Some [] then None else i) p tx
       (map_option (map absent_if_empty) ns) x"

fun absent_if_empty_input :: "'x TreeInput \<Rightarrow> 'x TreeInput" where
  "absent_if_empty_input (Single t) = Single (absent_if_empty t)"
| "absent_if_empty_input (Many ts) = Many (map absent_if_empty ts)"

definition ex_dup :: "unit TreeInput" where
  "ex_dup = Many [leaf (Some ''a'') (Some 1), leaf (Some ''b'') (Some 2), leaf (Some ''a'') (Some 7)]"

definition absent_entry :: "'x PageRangeInfo \<Rightarrow> 'x PageRangeInfo" where
  "absent_entry e = e\<lparr>node := absent_if_empty (node e)\<rparr>"

definition ex_special :: "unit TreeInput" where
  "ex_special = Many [leaf (Some ''a'') (Some 1), leaf (Some '''') (Some 2),
                      leaf (Some ''__proto__'') (Some 3), leaf None (Some 4),
                      leaf (Some ''b'') (Some 5)]"

definition ex_gap :: "unit TreeInput" where
  "ex_gap = Many [leaf (Some ''a'') (Some 1), leaf None (Some 5)]"

definition ex_empty2 :: "unit TreeInput" where
  "ex_empty2 = Many [leaf (Some '''') (Some 1), leaf (Some '''') (Some 2)]"

definition ex_proto2 :: "unit TreeInput" where
  "ex_proto2 = Many [leaf (Some ''__proto__'') (Some 1), leaf (Some ''__proto__'') (Some 2)]"

definition ex_nested :: "unit TreeInput" where
  "ex_nested = Single (TreeNode (Some ''r'') (Some 1) None
     (Some [TreeNode (Some ''a'') (Some 2) None (Some [leaf (Some '''') (Some 3)]) (),
            leaf (Some ''b'') (Some 5)]) ())"

section \<open>Positions and document order\<close>

text \<open>
  The canonical order of the specification, stated without the traversal.  A position
  is the list of child indices that leads from a root to a node; for a list of trees
  the first index picks the tree.  \<open>subtree_at\<close> and \<open>node_at\<close> read the node at a position,
  if there is one.  \<open>before p q\<close> is document order on positions: a node comes before
  everything below it, and at the first index where two positions differ the smaller
  index comes first.  \<open>positions\<close> enumerates the positions of an input.
\<close>

fun subtree_at :: "'x TreeNode \<Rightarrow> nat list \<Rightarrow> 'x TreeNode option" where
  "subtree_at t [] = Some t"
| "subtree_at t (i # p) =
     (if i < length (children t) then subtree_at (children t ! i) p else None)"

fun node_at :: "'x TreeInput \<Rightarrow> nat list \<Rightarrow> 'x TreeNode option" where
  "node_at (Single t) p = subtree_at t p"
| "node_at (Many ts) [] = None"
| "node_at (Many ts) (i # p) = (if i < length ts then subtree_at (ts ! i) p else None)"

fun before :: "nat list \<Rightarrow> nat list \<Rightarrow> bool" where
  "before [] q = (q \<noteq> [])"
| "before (i # p) [] = False"
| "before (i # p) (j # q) = (i < j \<or> (i = j \<and> before p q))"

fun below_from :: "nat \<Rightarrow> ('a \<Rightarrow> nat list list) \<Rightarrow> 'a list \<Rightarrow> nat list list" where
  "below_from k f [] = []"
| "below_from k f (c # cs) = map ((#) k) (f c) @ below_from (Suc k) f cs"

lemma below_from_enumerate:
  "below_from k f cs = concat (map (\<lambda>(i, c). map ((#) i) (f c)) (enumerate k cs))"
  by (induction cs arbitrary: k) simp_all

lemma below_from_cong [fundef_cong]:
  "cs = cs' \<Longrightarrow> (\<And>c. c \<in> set cs' \<Longrightarrow> f c = g c) \<Longrightarrow>
   below_from k f cs = below_from k g cs'"
  unfolding below_from_enumerate
  by (auto intro!: arg_cong [where f = concat] map_cong simp: in_set_enumerate_eq)

function positions_tree :: "'x TreeNode \<Rightarrow> nat list list" where
  "positions_tree t = [] # below_from 0 positions_tree (children t)"
  by pat_completeness auto
termination
  by (relation "measure size") (auto simp: size_children)

declare positions_tree.simps [simp del]

fun positions :: "'x TreeInput \<Rightarrow> nat list list" where
  "positions (Single t) = positions_tree t"
| "positions (Many ts) = below_from 0 positions_tree ts"

definition ex_forest :: "unit TreeInput" where
  "ex_forest = Many
     [TreeNode (Some ''r'') (Some 1) None
        (Some [leaf (Some ''a'') (Some 1),
               TreeNode (Some ''b'') (Some 3) None (Some [leaf (Some ''c'') (Some 4)]) ()]) (),
      leaf (Some ''d'') (Some 9)]"

section \<open>JSON-like values\<close>

text \<open>
  The values \<open>removeFields\<close> walks over and \<open>JSON.parse\<close> returns: scalars, arrays, and
  objects as lists of own properties in insertion order.  Numbers are only passed on or
  tested for zero, never computed with.
\<close>

datatype json =
  JUndefined
| JNull
| JBool bool
| JNum real
| JStr string
| JArr "json list"
| JObj "(string \<times> json) list"

section \<open>The field filter (utils.ts)\<close>

text \<open>
  \<open>data.slice(0, e)\<close> on a string: a negative \<open>e\<close> counts from the end, and the result
  is clipped to the string.
\<close>

definition slice_to :: "string \<Rightarrow> int \<Rightarrow> string" where
  "slice_to data e =
     (let len = int (length data);
          to = (if e < 0 then max (len + e) 0 else min e len)
      in take (nat to) data)"

text \<open>
  \<open>removeFields\<close>, in the order of its tests: array, object, string, anything else.
  \<open>fields.includes(k)\<close> is \<open>List.member fields' k\<close> (the parameter \<open>fields\<close> is written
  \<open>fields'\<close>); \<open>maxLen\<close> is \<open>None\<close> when the caller passes none, and any integer
  otherwise, since the source does not check it.  The default \<open>["text"]\<close> of \<open>fields\<close> is
  the caller's to pass.
\<close>

fun removeFields :: "json \<Rightarrow> string list \<Rightarrow> int option \<Rightarrow> json" where
  "removeFields (JArr items) fields' maxLen =
     JArr (map (\<lambda>item. removeFields item fields' maxLen) items)"
| "removeFields (JObj obj) fields' maxLen =
     JObj (fold (\<lambda>(k, v) out.
             if \<not> List.member fields' k then assign out k (removeFields v fields' maxLen)
             else out) obj [])"
| "removeFields (JStr data) fields' maxLen =
     (case maxLen of
        None \<Rightarrow> JStr data
      | Some n \<Rightarrow> if int (length data) > n then JStr (slice_to data n @ ''...'') else JStr data)"
| "removeFields data fields' maxLen = data"




text \<open>The body of the loop over \<open>Object.entries(obj)\<close>, named.\<close>

definition removeFields_step ::
  "string list \<Rightarrow> int option \<Rightarrow> string \<times> json \<Rightarrow> (string \<times> json) list \<Rightarrow> (string \<times> json) list" where
  "removeFields_step fields' maxLen =
     (\<lambda>(k, v) out.
        if \<not> List.member fields' k then assign out k (removeFields v fields' maxLen)
        else out)"


text \<open>A truncation limit the laws below hold for: none, or a length that is not negative.\<close>

definition valid_maxLen :: "int option \<Rightarrow> bool" where
  "valid_maxLen maxLen = (case maxLen of None \<Rightarrow> True | Some n \<Rightarrow> 0 \<le> n)"

definition ex_json :: json where
  "ex_json = JObj [(''a'', JStr ''hello world''), (''text'', JStr ''dropped''),
                   (''b'', JArr [JStr ''xy'', JNum 7, JObj [(''text'', JNull), (''c'', JStr ''abcdef'')]])]"

section \<open>The streaming decoder (PageIndexClient.streamText, streamRaw)\<close>

text \<open>
  A chunk read from the response body is a \<open>Uint8Array\<close>: a list of bytes.  The reader is
  the list of chunks it delivers before it reports \<open>done\<close>.  The two platform functions
  the generators call are parameters of the model: \<open>decode\<close> is \<open>decoder.decode(value)\<close>
  (called without the \<open>stream\<close> option, so every call decodes its chunk on its own), and
  \<open>parse\<close> is \<open>JSON.parse\<close>, with \<open>None\<close> for the \<open>SyntaxError\<close> it throws.  A generator is
  modelled by the list of the values it yields, together with the chunks it has not
  read when it ends.
\<close>

type_synonym bytes = "char list"

text \<open>
  \<open>trim\<close>, \<open>startsWith\<close> and the split at line feeds of JavaScript strings.  The white
  space of \<open>trim\<close> is listed for the code units a \<open>char\<close> can hold.
\<close>

definition is_space :: "char \<Rightarrow> bool" where
  "is_space c \<longleftrightarrow> c \<in> {CHR 0x09, CHR 0x0A, CHR 0x0B, CHR 0x0C, CHR 0x0D, CHR 0x20, CHR 0xA0}"

definition trim :: "string \<Rightarrow> string" where
  "trim s = rev (dropWhile is_space (rev (dropWhile is_space s)))"

definition startsWith :: "string \<Rightarrow> string \<Rightarrow> bool" where
  "startsWith s prefix \<longleftrightarrow> take (length prefix) s = prefix"

fun split_lines :: "string \<Rightarrow> string list" where
  "split_lines [] = [[]]"
| "split_lines (c # cs) =
     (if c = CHR 0x0A then [] # split_lines cs
      else (case split_lines cs of
              [] \<Rightarrow> [[c]]
            | l # ls \<Rightarrow> (c # l) # ls))"

text \<open>
  \<open>chunk.choices?.[0]?.delta?.content ?? ""\<close> on a parsed value: reading a property of
  \<open>null\<close> throws (\<open>None\<close>, caught by the \<open>catch\<close>), \<open>?.\<close> stops at \<open>null\<close> and \<open>undefined\<close>,
  only objects have the named properties, and index \<open>0\<close> reads the first element of an
  array, the first character of a string or the property \<open>"0"\<close> of an object.
  \<open>truthy\<close> is the test of \<open>if (content)\<close>.
\<close>

definition nullish :: "json \<Rightarrow> bool" where
  "nullish v \<longleftrightarrow> v = JNull \<or> v = JUndefined"

fun get_named :: "json \<Rightarrow> string \<Rightarrow> json" where
  "get_named (JObj obj) k = (case map_of obj k of None \<Rightarrow> JUndefined | Some v \<Rightarrow> v)"
| "get_named v k = JUndefined"

fun get_first :: "json \<Rightarrow> json" where
  "get_first (JArr []) = JUndefined"
| "get_first (JArr (x # xs)) = x"
| "get_first (JStr []) = JUndefined"
| "get_first (JStr (c # cs)) = JStr [c]"
| "get_first (JObj obj) = (case map_of obj ''0'' of None \<Rightarrow> JUndefined | Some v \<Rightarrow> v)"
| "get_first v = JUndefined"

fun truthy :: "json \<Rightarrow> bool" where
  "truthy JUndefined = False"
| "truthy JNull = False"
| "truthy (JBool b) = b"
| "truthy (JNum x) = (x \<noteq> 0)"
| "truthy (JStr s) = (s \<noteq> [])"
| "truthy (JArr xs) = True"
| "truthy (JObj obj) = True"

definition delta_content :: "json \<Rightarrow> json option" where
  "delta_content chunk =
     (if nullish chunk then None
      else
        let choices = get_named chunk ''choices'';
            first = (if nullish choices then JUndefined else get_first choices);
            delta = (if nullish first then JUndefined else get_named first ''delta'');
            content = (if nullish delta then JUndefined else get_named delta ''content'')
        in Some (if nullish content then JStr [] else content))"

text \<open>
  The \<open>for\<close> loop over the lines of one chunk in \<open>streamText\<close>: the values yielded, and
  whether the generator has returned at \<open>[DONE]\<close>.  Both a failed parse and a thrown
  property read end in \<open>continue\<close>.
\<close>

fun streamText_lines :: "(string \<Rightarrow> json option) \<Rightarrow> string list \<Rightarrow> json list \<times> bool" where
  "streamText_lines parse [] = ([], False)"
| "streamText_lines parse (line # lines) =
     (if startsWith line ''data: '' then
        let data = trim (drop 6 line) in
        if data = ''[DONE]'' then ([], True)
        else
          (case parse data of
             None \<Rightarrow> streamText_lines parse lines
           | Some chunk \<Rightarrow>
               (case delta_content chunk of
                  None \<Rightarrow> streamText_lines parse lines
                | Some content \<Rightarrow>
                    if truthy content
                    then (let (ys, returned) = streamText_lines parse lines
                          in (content # ys, returned))
                    else streamText_lines parse lines))
      else streamText_lines parse lines)"

text \<open>The \<open>while\<close> loop of \<open>streamText\<close> over the reads.\<close>

fun streamText ::
  "(bytes \<Rightarrow> string) \<Rightarrow> (string \<Rightarrow> json option) \<Rightarrow> bytes list \<Rightarrow> json list \<times> bytes list" where
  "streamText decode parse [] = ([], [])"
| "streamText decode parse (value # reader) =
     (let text = decode value;
          (ys, returned) = streamText_lines parse (split_lines text)
      in if returned then (ys, reader)
         else (let (zs, unread) = streamText decode parse reader in (ys @ zs, unread)))"

text \<open>\<open>streamRaw\<close>: the same loops, yielding every parsed value.\<close>

fun streamRaw_lines :: "(string \<Rightarrow> json option) \<Rightarrow> string list \<Rightarrow> json list \<times> bool" where
  "streamRaw_lines parse [] = ([], False)"
| "streamRaw_lines parse (line # lines) =
     (if startsWith line ''data: '' then
        let data = trim (drop 6 line) in
        if data = ''[DONE]'' then ([], True)
        else
          (case parse data of
             None \<Rightarrow> streamRaw_lines parse lines
           | Some chunk \<Rightarrow>
               (let (ys, returned) = streamRaw_lines parse lines
                in (chunk # ys, returned)))
      else streamRaw_lines parse lines)"

fun streamRaw ::
  "(bytes \<Rightarrow> string) \<Rightarrow> (string \<Rightarrow> json option) \<Rightarrow> bytes list \<Rightarrow> json list \<times> bytes list" where
  "streamRaw decode parse [] = ([], [])"
| "streamRaw decode parse (value # reader) =
     (let text = decode value;
          (ys, returned) = streamRaw_lines parse (split_lines text)
      in if returned then (ys, reader)
         else (let (zs, unread) = streamRaw decode parse reader in (ys @ zs, unread)))"

text \<open>
  Concrete inputs.  \<open>frame_A\<close> is the text \<open>{"choices":[{"delta":{"content":"A"}}]}\<close> and
  \<open>chunk_A\<close> the value \<open>JSON.parse\<close> returns for it.  \<open>parse_sample\<close> is \<open>JSON.parse\<close> on the
  payloads used below: \<open>frame_A\<close> parses, and the other payloads (\<open>not-json\<close>, \<open>[DONE]\<close>,
  \<open>[DO\<close>, and \<open>frame_A\<close> followed by \<open>x\<close>) are not JSON.  \<open>decode_ascii\<close> is the decoder on
  chunks of ASCII bytes, where every byte is the code unit of the same value.
\<close>

definition quoted :: "string \<Rightarrow> string" where
  "quoted s = CHR 0x22 # s @ [CHR 0x22]"

definition frame_A :: string where
  "frame_A = ''{'' @ quoted ''choices'' @ '':[{'' @ quoted ''delta'' @ '':{''
             @ quoted ''content'' @ '':'' @ quoted ''A'' @ ''}}]}''"

definition chunk_A :: json where
  "chunk_A = JObj [(''choices'', JArr [JObj [(''delta'', JObj [(''content'', JStr ''A'')])]])]"

definition parse_sample :: "string \<Rightarrow> json option" where
  "parse_sample s = (if s = frame_A then Some chunk_A else None)"

definition decode_ascii :: "bytes \<Rightarrow> string" where
  "decode_ascii value = value"

text \<open>
  A line that ends the stream, and a decoded chunk that ends at a line boundary.
\<close>

definition done_line :: "string \<Rightarrow> bool" where
  "done_line line \<longleftrightarrow> startsWith line ''data: '' \<and> trim (drop 6 line) = ''[DONE]''"

definition line_aligned :: "string \<Rightarrow> bool" where
  "line_aligned text \<longleftrightarrow> text = [] \<or> last text = CHR 0x0A"

definition sse_A :: bytes where
  "sse_A = ''data: '' @ frame_A @ ''\<newline>''"

definition sse_done :: bytes where
  "sse_done = ''data: [DONE]\<newline>''"

section \<open>Facts about property assignment\<close>

lemma map_of_write_own: "map_of (write_own m k v) = (map_of m)(k \<mapsto> v)"
  by (induction m k v rule: write_own.induct) auto

lemma keys_write_own: "fst ` set (write_own m k v) = insert k (fst ` set m)"
  by (induction m k v rule: write_own.induct) auto

lemma distinct_write_own:
  "distinct (map fst m) \<Longrightarrow> distinct (map fst (write_own m k v))"
  by (induction m k v rule: write_own.induct) (auto simp: keys_write_own)

lemma set_write_own: "set (write_own m k v) \<subseteq> insert (k, v) (set m)"
  by (induction m k v rule: write_own.induct) auto

lemma write_own_fresh: "k \<notin> fst ` set m \<Longrightarrow> write_own m k v = m @ [(k, v)]"
  by (induction m k v rule: write_own.induct) auto

lemma write_own_map_values:
  "write_own (map (\<lambda>(k, v). (k, f v)) m) k (f v)
     = map (\<lambda>(k, v). (k, f v)) (write_own m k v)"
  by (induction m k v rule: write_own.induct) auto

lemma map_of_assign:
  "map_of (assign m k v) = (if k = proto_key then map_of m else (map_of m)(k \<mapsto> v))"
  by (simp add: assign_def proto_key_def map_of_write_own)

lemma keys_assign:
  "fst ` set (assign m k v) =
     (if k = proto_key then fst ` set m else insert k (fst ` set m))"
  by (simp add: assign_def proto_key_def keys_write_own)

lemma proto_not_key_assign:
  "proto_key \<notin> fst ` set m \<Longrightarrow> proto_key \<notin> fst ` set (assign m k v)"
  by (simp add: keys_assign)

lemma distinct_assign: "distinct (map fst m) \<Longrightarrow> distinct (map fst (assign m k v))"
  by (simp add: assign_def distinct_write_own)

lemma set_assign: "set (assign m k v) \<subseteq> insert (k, v) (set m)"
  using set_write_own [of m k v] by (auto simp: assign_def)

lemma assign_fresh:
  "k \<notin> fst ` set m \<Longrightarrow> k \<noteq> proto_key \<Longrightarrow> assign m k v = m @ [(k, v)]"
  by (simp add: assign_def proto_key_def write_own_fresh)

lemma assign_map_values:
  "assign (map (\<lambda>(k, v). (k, f v)) m) k (f v) = map (\<lambda>(k, v). (k, f v)) (assign m k v)"
  by (simp add: assign_def write_own_map_values)

section \<open>The two loops of createNodeMapping\<close>

lemma rangeMap_step_eq:
  "rangeMap_step all mp i m =
     (case node_id (all ! i) of None \<Rightarrow> m
      | Some k \<Rightarrow> if k = [] then m else assign m k (entry_at all mp i))"
  by (simp add: rangeMap_step_def entry_at_def Let_def split: option.splits)

lemma createNodeMapping_False:
  "createNodeMapping tree False mp = NodeMap (fold nodeMap_step (getAllNodes tree) [])"
  unfolding createNodeMapping_def nodeMap_step_def by (simp add: Let_def)

lemma createNodeMapping_True:
  "createNodeMapping tree True mp =
     PageRangeMap (fold (rangeMap_step (getAllNodes tree) mp) [0..<length (getAllNodes tree)] [])"
  unfolding createNodeMapping_def rangeMap_step_def by (simp add: Let_def)

lemma last_occ_Suc:
  "last_occ all (Suc j) k i \<longleftrightarrow>
     (if node_id (all ! j) = Some k then i = j else last_occ all j k i)"
  by (auto simp: last_occ_def less_Suc_eq)

lemma nodeMap_prefix:
  "j \<le> length all \<Longrightarrow>
   map_of (fold nodeMap_step (take j all) []) k = Some v \<longleftrightarrow>
     k \<noteq> [] \<and> k \<noteq> proto_key \<and> (\<exists>i. last_occ all j k i \<and> v = all ! i)"
proof (induction j arbitrary: v)
  case 0
  then show ?case by (simp add: last_occ_def)
next
  case (Suc j)
  then have j: "j < length all" by simp
  show ?case
    using Suc.IH j
    by (auto simp: take_Suc_conv_app_nth nodeMap_step_def map_of_assign last_occ_Suc
             split: option.splits)
qed

lemma rangeMap_prefix:
  "j \<le> length all \<Longrightarrow>
   map_of (fold (rangeMap_step all mp) [0..<j] []) k = Some v \<longleftrightarrow>
     k \<noteq> [] \<and> k \<noteq> proto_key
     \<and> (\<exists>i. last_occ all j k i \<and> v = entry_at all mp i)"
proof (induction j arbitrary: v)
  case 0
  then show ?case by (simp add: last_occ_def)
next
  case (Suc j)
  then have j: "j < length all" by simp
  show ?case
    using Suc.IH j
    by (auto simp: rangeMap_step_eq map_of_assign last_occ_Suc split: option.splits)
qed

lemma keys_nodeMap:
  "fst ` set (fold nodeMap_step xs []) =
     {k. k \<noteq> [] \<and> k \<noteq> proto_key \<and> (\<exists>n \<in> set xs. node_id n = Some k)}"
  by (induction xs rule: rev_induct)
     (auto simp: nodeMap_step_def keys_assign split: option.splits)

lemma keys_rangeMap:
  "j \<le> length all \<Longrightarrow> fst ` set (fold (rangeMap_step all mp) [0..<j] []) =
     {k. k \<noteq> [] \<and> k \<noteq> proto_key \<and> (\<exists>i<j. node_id (all ! i) = Some k)}"
  by (induction j)
     (auto simp: rangeMap_step_eq keys_assign less_Suc_eq split: option.splits)

lemma distinct_nodeMap: "distinct (map fst (fold nodeMap_step xs []))"
  by (induction xs rule: rev_induct)
     (auto simp: nodeMap_step_def distinct_assign split: option.splits)

lemma distinct_rangeMap: "distinct (map fst (fold (rangeMap_step all mp) [0..<j] []))"
  by (induction j) (auto simp: rangeMap_step_eq distinct_assign split: option.splits)

lemma nodeMap_entry:
  assumes "(k, n) \<in> set (fold nodeMap_step all [])"
  shows "k \<noteq> [] \<and> k \<noteq> proto_key
         \<and> (\<exists>i. last_occ all (length all) k i \<and> n = all ! i)"
proof -
  have "map_of (fold nodeMap_step all []) k = Some n"
    using assms distinct_nodeMap [of all] by (rule map_of_is_SomeI [rotated])
  then show ?thesis
    using nodeMap_prefix [of "length all" all k n] by simp
qed

lemma rangeMap_entry:
  assumes "(k, e) \<in> set (fold (rangeMap_step all mp) [0..<length all] [])"
  shows "k \<noteq> [] \<and> k \<noteq> proto_key
         \<and> (\<exists>i. last_occ all (length all) k i \<and> e = entry_at all mp i)"
proof -
  have "map_of (fold (rangeMap_step all mp) [0..<length all] []) k = Some e"
    using assms distinct_rangeMap [of all mp "length all"] by (rule map_of_is_SomeI [rotated])
  then show ?thesis
    using rangeMap_prefix [of "length all" all mp k e] by simp
qed

text \<open>Rules that evaluate the functions on a concrete tree.\<close>

lemmas tree_eval =
  createNodeMapping_def assign_def getAllNodes_tree.simps children_def leaf_def Let_def

section \<open>Facts about positions\<close>

lemma in_below_iff:
  "q \<in> set (below_from 0 f cs) \<longleftrightarrow> (\<exists>i p. q = i # p \<and> i < length cs \<and> p \<in> set (f (cs ! i)))"
proof
  assume "q \<in> set (below_from 0 f cs)"
  then show "\<exists>i p. q = i # p \<and> i < length cs \<and> p \<in> set (f (cs ! i))"
    unfolding below_from_enumerate by (auto simp: in_set_enumerate_eq)
next
  assume "\<exists>i p. q = i # p \<and> i < length cs \<and> p \<in> set (f (cs ! i))"
  then obtain i p where ip: "q = i # p" "i < length cs" "p \<in> set (f (cs ! i))"
    by blast
  then have "(i, cs ! i) \<in> set (enumerate 0 cs)"
    by (simp add: in_set_enumerate_eq)
  moreover have "q \<in> set (case (i, cs ! i) of (i, c) \<Rightarrow> map ((#) i) (f c))"
    using ip by simp
  ultimately have "\<exists>x \<in> set (enumerate 0 cs). q \<in> set (case x of (i, c) \<Rightarrow> map ((#) i) (f c))"
    by (rule bexI [rotated])
  then show "q \<in> set (below_from 0 f cs)"
    unfolding below_from_enumerate by simp
qed

lemma map_enumerate_snd: "map (\<lambda>(i, c). g c) (enumerate k cs) = map g cs"
  by (induction cs arbitrary: k) simp_all

lemma map_below:
  assumes "\<And>i p. i < length cs \<Longrightarrow> look (i # p) = sub (cs ! i) p"
  shows "map look (below_from 0 f cs) = concat (map (\<lambda>c. map (sub c) (f c)) cs)"
proof -
  have "map look (below_from 0 f cs)
          = concat (map (\<lambda>(i, c). map (sub c) (f c)) (enumerate 0 cs))"
    unfolding below_from_enumerate map_concat
    by (auto intro!: arg_cong [where f = concat] simp: in_set_enumerate_eq assms)
  also have "map (\<lambda>(i, c). map (sub c) (f c)) (enumerate 0 cs)
          = map (\<lambda>c. map (sub c) (f c)) cs"
    by (rule map_enumerate_snd)
  finally show ?thesis .
qed

lemma nodes_positions_tree:
  "map (subtree_at t) (positions_tree t) = map Some (getAllNodes_tree t)"
proof (induction t rule: getAllNodes_tree.induct)
  case (1 t)
  have "map (subtree_at t) (below_from 0 positions_tree (children t))
          = concat (map (\<lambda>c. map (subtree_at c) (positions_tree c)) (children t))"
    by (rule map_below) simp
  also have "\<dots> = concat (map (\<lambda>c. map Some (getAllNodes_tree c)) (children t))"
    using 1 by (simp cong: map_cong)
  also have "\<dots> = map Some (concat (map getAllNodes_tree (children t)))"
    by (simp add: map_concat comp_def)
  finally show ?case
    unfolding positions_tree.simps [of t] getAllNodes_tree.simps [of t] by simp
qed

lemma nodes_positions:
  "map (node_at tree) (positions tree) = map Some (getAllNodes tree)"
proof (cases tree)
  case (Single t)
  then show ?thesis
    using nodes_positions_tree [of t] by (simp cong: map_cong)
next
  case (Many ts)
  have "map (node_at (Many ts)) (below_from 0 positions_tree ts)
          = concat (map (\<lambda>c. map (subtree_at c) (positions_tree c)) ts)"
    by (rule map_below) simp
  then show ?thesis
    using Many by (simp add: nodes_positions_tree map_concat comp_def)
qed

lemma set_positions_tree: "set (positions_tree t) = {p. subtree_at t p \<noteq> None}"
proof (induction t rule: getAllNodes_tree.induct)
  case (1 t)
  show ?case
  proof (rule set_eqI)
    fix p
    show "p \<in> set (positions_tree t) \<longleftrightarrow> p \<in> {p. subtree_at t p \<noteq> None}"
    proof (cases p)
      case Nil
      then show ?thesis by (simp add: positions_tree.simps [of t])
    next
      case (Cons i q)
      then show ?thesis
        using 1 by (auto simp: positions_tree.simps [of t] in_below_iff)
    qed
  qed
qed

lemma set_positions: "set (positions tree) = {p. node_at tree p \<noteq> None}"
proof (cases tree)
  case (Single t)
  then show ?thesis by (simp add: set_positions_tree)
next
  case (Many ts)
  show ?thesis
  proof (rule set_eqI)
    fix p
    show "p \<in> set (positions tree) \<longleftrightarrow> p \<in> {p. node_at tree p \<noteq> None}"
      using Many by (cases p) (auto simp: in_below_iff set_positions_tree)
  qed
qed

lemma before_irrefl: "\<not> before p p"
  by (induction p) auto

lemma before_asym: "before p q \<Longrightarrow> \<not> before q p"
proof (induction p q rule: before.induct)
  case (1 q)
  then show ?case by (cases q) auto
next
  case (2 i p)
  then show ?case by simp
next
  case (3 i p j q)
  then show ?case by auto
qed

lemma before_descendant: "q \<noteq> [] \<Longrightarrow> before p (p @ q)"
  by (induction p) auto

lemma before_sibling: "i < j \<Longrightarrow> before (p @ i # r) (p @ j # s)"
  by (induction p) auto

lemma sorted_below_from:
  assumes "\<And>c. c \<in> set cs \<Longrightarrow> sorted_wrt before (f c)"
  shows "sorted_wrt before (concat (map (\<lambda>(i, c). map ((#) i) (f c)) (enumerate k cs)))
         \<and> (\<forall>q \<in> set (concat (map (\<lambda>(i, c). map ((#) i) (f c)) (enumerate k cs))).
               \<exists>j p. q = j # p \<and> k \<le> j)"
  using assms
proof (induction cs arbitrary: k)
  case Nil
  then show ?case by simp
next
  case (Cons c cs)
  have ih: "sorted_wrt before (concat (map (\<lambda>(i, c). map ((#) i) (f c)) (enumerate (Suc k) cs)))
         \<and> (\<forall>q \<in> set (concat (map (\<lambda>(i, c). map ((#) i) (f c)) (enumerate (Suc k) cs))).
               \<exists>j p. q = j # p \<and> Suc k \<le> j)"
    using Cons.IH [of "Suc k"] Cons.prems by simp
  have hd: "sorted_wrt before (map ((#) k) (f c))"
    using Cons.prems [of c] by (simp add: sorted_wrt_map)
  show ?case
    using ih hd by (fastforce simp: sorted_wrt_append)
qed

lemma sorted_below:
  "(\<And>c. c \<in> set cs \<Longrightarrow> sorted_wrt before (f c)) \<Longrightarrow> sorted_wrt before (below_from 0 f cs)"
  unfolding below_from_enumerate using sorted_below_from [of cs f 0] by simp

lemma sorted_positions_tree: "sorted_wrt before (positions_tree t)"
proof (induction t rule: getAllNodes_tree.induct)
  case (1 t)
  have "sorted_wrt before (below_from 0 positions_tree (children t))"
    using 1 by (rule sorted_below)
  moreover have "\<forall>q \<in> set (below_from 0 positions_tree (children t)). before [] q"
    by (auto simp: in_below_iff)
  ultimately show ?case
    by (simp add: positions_tree.simps [of t])
qed

lemma sorted_positions: "sorted_wrt before (positions tree)"
  by (cases tree) (simp_all add: sorted_positions_tree sorted_below)

lemma sorted_before_index:
  assumes "sorted_wrt before ps" "a < length ps" "b < length ps"
  shows "a < b \<longleftrightarrow> before (ps ! a) (ps ! b)"
proof
  assume "a < b"
  then show "before (ps ! a) (ps ! b)"
    using assms by (simp add: sorted_wrt_iff_nth_less)
next
  assume bf: "before (ps ! a) (ps ! b)"
  show "a < b"
  proof (rule ccontr)
    assume "\<not> a < b"
    then consider "a = b" | "b < a" by linarith
    then show False
    proof cases
      case 1
      with bf show False by (simp add: before_irrefl)
    next
      case 2
      then have "before (ps ! b) (ps ! a)"
        using assms by (simp add: sorted_wrt_iff_nth_less)
      with bf show False using before_asym by blast
    qed
  qed
qed

section \<open>Traversal order\<close>

text \<open>
  C4.  For every input, the flattened node list is the canonical pre-order: it lists
  the nodes at all positions of the input, each position once, in document order.  In
  document order a node comes before every node below it, the subtree of an earlier
  child comes before the subtree of a later child, and for a list of trees the whole of
  an earlier tree comes before the whole of a later tree.
\<close>

theorem getAllNodes_preorder:
  "map (node_at tree) (positions tree) = map Some (getAllNodes tree)
   \<and> set (positions tree) = {p. node_at tree p \<noteq> None}
   \<and> (\<forall>a b. a < length (positions tree) \<and> b < length (positions tree) \<longrightarrow>
         (a < b \<longleftrightarrow> before (positions tree ! a) (positions tree ! b)))
   \<and> (\<forall>p q. q \<noteq> [] \<longrightarrow> before p (p @ q))
   \<and> (\<forall>p i j r s. i < j \<longrightarrow> before (p @ i # r) (p @ j # s))"
proof (intro conjI allI impI)
  show "map (node_at tree) (positions tree) = map Some (getAllNodes tree)"
    by (rule nodes_positions)
  show "set (positions tree) = {p. node_at tree p \<noteq> None}"
    by (rule set_positions)
  show "a < b \<longleftrightarrow> before (positions tree ! a) (positions tree ! b)"
    if "a < length (positions tree) \<and> b < length (positions tree)" for a b
    using that sorted_before_index [OF sorted_positions [of tree], of a b] by simp
  show "before p (p @ q)" if "q \<noteq> []" for p q :: "nat list"
    using that by (rule before_descendant)
  show "before (p @ i # r) (p @ j # s)" if "i < j" for p r s :: "nat list" and i j
    using that by (rule before_sibling)
qed

theorem getAllNodes_preorder_witness:
  "positions ex_forest = [[0], [0, 0], [0, 1], [0, 1, 0], [1]]
   \<and> map node_id (getAllNodes ex_forest) =
       [Some ''r'', Some ''a'', Some ''b'', Some ''c'', Some ''d'']
   \<and> map (node_at ex_forest) (positions ex_forest) = map Some (getAllNodes ex_forest)
   \<and> (2 < (3::nat)) = before (positions ex_forest ! 2) (positions ex_forest ! 3)
   \<and> before [0, 1] ([0, 1] @ [0])
   \<and> before ([0] @ 0 # []) ([0] @ 1 # [0])"
proof -
  have pos: "positions ex_forest = [[0], [0, 0], [0, 1], [0, 1, 0], [1]]"
    by (simp add: ex_forest_def positions_tree.simps children_def leaf_def)
  have ids: "map node_id (getAllNodes ex_forest) =
       [Some ''r'', Some ''a'', Some ''b'', Some ''c'', Some ''d'']"
    by (simp add: ex_forest_def tree_eval)
  have len: "2 < length (positions ex_forest) \<and> 3 < length (positions ex_forest)"
    by (simp add: pos)
  note main = getAllNodes_preorder [of ex_forest]
  note order = main [THEN conjunct2, THEN conjunct2, THEN conjunct1, rule_format]
  note desc = main [THEN conjunct2, THEN conjunct2, THEN conjunct2, THEN conjunct1, rule_format]
  note sibl = main [THEN conjunct2, THEN conjunct2, THEN conjunct2, THEN conjunct2, rule_format]
  have 1: "map (node_at ex_forest) (positions ex_forest) = map Some (getAllNodes ex_forest)"
    by (rule main [THEN conjunct1])
  have 2: "(2 < (3::nat)) = before (positions ex_forest ! 2) (positions ex_forest ! 3)"
    by (rule order) (rule len)
  have 3: "before [0, 1] ([0, 1] @ [0])"
    by (rule desc) simp
  have 4: "before ([0] @ 0 # []) ([0] @ 1 # [0])"
    by (rule sibl) simp
  show ?thesis
    by (intro conjI pos ids 1 2 3 4)
qed

section \<open>Flatten-to-map\<close>

text \<open>
  C3 (as the code has it).  For every forest, flatten-to-map returns a mapping with
  exactly one entry for each distinct \<open>node_id\<close> that occurs in the forest and is
  neither the empty string nor \<open>__proto__\<close>, and no other entry; every entry is a node of
  the forest filed under its own id, so no entry belongs to a node whose \<open>node_id\<close> is
  missing, empty or \<open>__proto__\<close>.
\<close>

theorem flatten_to_map_entries:
  "\<exists>m. createNodeMapping tree False mp = NodeMap m
     \<and> distinct (map fst m)
     \<and> fst ` set m =
         {k. k \<noteq> [] \<and> k \<noteq> ''__proto__''
             \<and> (\<exists>n \<in> set (getAllNodes tree). node_id n = Some k)}
     \<and> (\<forall>(k, n) \<in> set m.
           n \<in> set (getAllNodes tree) \<and> node_id n = Some k
           \<and> k \<noteq> [] \<and> k \<noteq> ''__proto__'')"
proof (intro exI conjI)
  let ?all = "getAllNodes tree"
  let ?m = "fold nodeMap_step ?all []"
  show "createNodeMapping tree False mp = NodeMap ?m"
    by (rule createNodeMapping_False)
  show "distinct (map fst ?m)"
    by (rule distinct_nodeMap)
  show "fst ` set ?m =
         {k. k \<noteq> [] \<and> k \<noteq> ''__proto__''
             \<and> (\<exists>n \<in> set ?all. node_id n = Some k)}"
    using keys_nodeMap [of ?all] by (simp add: proto_key_def)
  show "\<forall>(k, n) \<in> set ?m.
           n \<in> set ?all \<and> node_id n = Some k \<and> k \<noteq> [] \<and> k \<noteq> ''__proto__''"
  proof (clarify)
    fix k n assume "(k, n) \<in> set ?m"
    then obtain i where "k \<noteq> []" "k \<noteq> proto_key"
        "last_occ ?all (length ?all) k i" "n = ?all ! i"
      using nodeMap_entry by blast
    then show "n \<in> set ?all \<and> node_id n = Some k \<and> k \<noteq> [] \<and> k \<noteq> ''__proto__''"
      by (auto simp: last_occ_def proto_key_def)
  qed
qed

theorem flatten_to_map_entries_witness:
  "createNodeMapping ex_special False None =
     NodeMap [(''a'', leaf (Some ''a'') (Some 1)), (''b'', leaf (Some ''b'') (Some 5))]
   \<and> distinct (map fst [(''a'', leaf (Some ''a'') (Some 1)), (''b'', leaf (Some ''b'') (Some 5))])
   \<and> fst ` set [(''a'', leaf (Some ''a'') (Some 1)), (''b'', leaf (Some ''b'') (Some 5))]
       = {k. k \<noteq> [] \<and> k \<noteq> ''__proto__''
             \<and> (\<exists>n \<in> set (getAllNodes ex_special). node_id n = Some k)}"
proof -
  let ?m = "[(''a'', leaf (Some ''a'') (Some 1)), (''b'', leaf (Some ''b'') (Some 5))]"
  have run: "createNodeMapping ex_special False None = NodeMap ?m"
    by (simp add: tree_eval ex_special_def)
  obtain m where
    m: "createNodeMapping ex_special False None = NodeMap m"
       "distinct (map fst m)"
       "fst ` set m =
          {k. k \<noteq> [] \<and> k \<noteq> ''__proto__''
              \<and> (\<exists>n \<in> set (getAllNodes ex_special). node_id n = Some k)}"
    using flatten_to_map_entries [of ex_special None] by (elim exE conjE) (rule that)
  from m(1) run have eq: "m = ?m" by simp
  show ?thesis
    using run m(2,3) unfolding eq by (intro conjI)
qed

text \<open>
  C3 as stated fails where a \<open>node_id\<close> is the empty string, and where it is
  \<open>__proto__\<close>: the id occurs in the forest and the mapping has no entry for it.
\<close>

theorem flatten_to_map_empty_id_counterexample:
  "node_id (leaf (Some '''') (Some 1)) = Some ''''
   \<and> leaf (Some '''') (Some 1) \<in> set (getAllNodes (Single (leaf (Some '''') (Some 1))))
   \<and> createNodeMapping (Single (leaf (Some '''') (Some 1))) False None = NodeMap []
   \<and> node_id (leaf (Some ''__proto__'') (Some 1)) = Some ''__proto__''
   \<and> leaf (Some ''__proto__'') (Some 1)
       \<in> set (getAllNodes (Single (leaf (Some ''__proto__'') (Some 1))))
   \<and> createNodeMapping (Single (leaf (Some ''__proto__'') (Some 1))) False None = NodeMap []"
  by (simp add: tree_eval)

section \<open>Flatten-to-page-ranges\<close>

text \<open>
  C1 (as the code has it).  For every forest and every \<open>max_page\<close>, supplied or not,
  each entry of flatten-to-page-ranges is built from the node at one position \<open>i\<close> of
  the full pre-order flattening, the last position that carries the entry's
  \<open>node_id\<close>, which is neither empty nor \<open>__proto__\<close>: \<open>start_index\<close> is that node's
  \<open>page_index\<close>, and \<open>end_index\<close> is the \<open>page_index\<close> of the node at position \<open>i + 1\<close>,
  with or without a \<open>node_id\<close>, when that position exists.  Only the node at the last
  position of the whole flattening takes \<open>max_page\<close> as its \<open>end_index\<close>: the value
  supplied, or none when \<open>max_page\<close> is not supplied.  Every node whose \<open>node_id\<close> is
  neither empty nor \<open>__proto__\<close> has its id among the keys.
\<close>

theorem page_ranges_entries:
  "\<exists>m. createNodeMapping tree True maxPage = PageRangeMap m
     \<and> distinct (map fst m)
     \<and> (\<forall>(k, e) \<in> set m. \<exists>i.
           last_occ (getAllNodes tree) (length (getAllNodes tree)) k i
           \<and> k \<noteq> [] \<and> k \<noteq> ''__proto__''
           \<and> node e = getAllNodes tree ! i
           \<and> start_index e = page_index (getAllNodes tree ! i)
           \<and> end_index e =
               (if i + 1 < length (getAllNodes tree)
                then page_index (getAllNodes tree ! (i + 1)) else maxPage))
     \<and> (\<forall>n \<in> set (getAllNodes tree). \<forall>k.
           node_id n = Some k \<and> k \<noteq> [] \<and> k \<noteq> ''__proto__'' \<longrightarrow> k \<in> fst ` set m)"
proof (intro exI conjI)
  let ?all = "getAllNodes tree"
  let ?m = "fold (rangeMap_step ?all maxPage) [0..<length ?all] []"
  show "createNodeMapping tree True maxPage = PageRangeMap ?m"
    by (rule createNodeMapping_True)
  show "distinct (map fst ?m)" by (rule distinct_rangeMap)
  show "\<forall>(k, e) \<in> set ?m. \<exists>i.
           last_occ ?all (length ?all) k i \<and> k \<noteq> [] \<and> k \<noteq> ''__proto__''
           \<and> node e = ?all ! i
           \<and> start_index e = page_index (?all ! i)
           \<and> end_index e =
               (if i + 1 < length ?all then page_index (?all ! (i + 1)) else maxPage)"
  proof (clarify)
    fix k e assume "(k, e) \<in> set ?m"
    then obtain i where "k \<noteq> []" "k \<noteq> proto_key"
        "last_occ ?all (length ?all) k i" "e = entry_at ?all maxPage i"
      using rangeMap_entry by blast
    then show "\<exists>i. last_occ ?all (length ?all) k i \<and> k \<noteq> [] \<and> k \<noteq> ''__proto__''
           \<and> node e = ?all ! i
           \<and> start_index e = page_index (?all ! i)
           \<and> end_index e =
               (if i + 1 < length ?all then page_index (?all ! (i + 1)) else maxPage)"
      by (intro exI [of _ i]) (simp add: entry_at_def proto_key_def)
  qed
  show "\<forall>n \<in> set ?all. \<forall>k.
           node_id n = Some k \<and> k \<noteq> [] \<and> k \<noteq> ''__proto__'' \<longrightarrow> k \<in> fst ` set ?m"
  proof (intro ballI allI impI)
    fix n k
    assume n: "n \<in> set ?all" and k: "node_id n = Some k \<and> k \<noteq> [] \<and> k \<noteq> ''__proto__''"
    from n obtain i where "i < length ?all" "?all ! i = n"
      by (auto simp: in_set_conv_nth)
    with k have "k \<in> {k. k \<noteq> [] \<and> k \<noteq> proto_key
                         \<and> (\<exists>i<length ?all. node_id (?all ! i) = Some k)}"
      by (auto simp: proto_key_def)
    then show "k \<in> fst ` set ?m"
      using keys_rangeMap [of "length ?all" ?all maxPage] by simp
  qed
qed

theorem page_ranges_entries_witness:
  "createNodeMapping (Single ex_tree) True (Some 10) =
     PageRangeMap
       [(''r'', \<lparr>node = ex_tree, start_index = Some 1, end_index = Some 1\<rparr>),
        (''a'', \<lparr>node = leaf (Some ''a'') (Some 1), start_index = Some 1, end_index = Some 3\<rparr>),
        (''b'', \<lparr>node = leaf (Some ''b'') (Some 3), start_index = Some 3, end_index = Some 10\<rparr>)]
   \<and> createNodeMapping (Single ex_tree) True None =
     PageRangeMap
       [(''r'', \<lparr>node = ex_tree, start_index = Some 1, end_index = Some 1\<rparr>),
        (''a'', \<lparr>node = leaf (Some ''a'') (Some 1), start_index = Some 1, end_index = Some 3\<rparr>),
        (''b'', \<lparr>node = leaf (Some ''b'') (Some 3), start_index = Some 3, end_index = None\<rparr>)]
   \<and> ''b'' \<in> fst ` set
       [(''r'', \<lparr>node = ex_tree, start_index = Some 1, end_index = Some 1\<rparr>),
        (''a'', \<lparr>node = leaf (Some ''a'') (Some 1), start_index = Some 1, end_index = Some 3\<rparr>),
        (''b'', \<lparr>node = leaf (Some ''b'') (Some 3), start_index = Some 3, end_index = Some 10\<rparr>)]"
proof -
  let ?m = "[(''r'', \<lparr>node = ex_tree, start_index = Some 1, end_index = Some 1\<rparr>),
        (''a'', \<lparr>node = leaf (Some ''a'') (Some 1), start_index = Some 1, end_index = Some 3\<rparr>),
        (''b'', \<lparr>node = leaf (Some ''b'') (Some 3), start_index = Some 3, end_index = Some 10\<rparr>)]"
  have run: "createNodeMapping (Single ex_tree) True (Some 10) = PageRangeMap ?m"
    by (simp add: tree_eval ex_tree_def)
  have run': "createNodeMapping (Single ex_tree) True None =
     PageRangeMap
       [(''r'', \<lparr>node = ex_tree, start_index = Some 1, end_index = Some 1\<rparr>),
        (''a'', \<lparr>node = leaf (Some ''a'') (Some 1), start_index = Some 1, end_index = Some 3\<rparr>),
        (''b'', \<lparr>node = leaf (Some ''b'') (Some 3), start_index = Some 3, end_index = None\<rparr>)]"
    by (simp add: tree_eval ex_tree_def)
  have mem: "leaf (Some ''b'') (Some 3) \<in> set (getAllNodes (Single ex_tree))"
    by (simp add: tree_eval ex_tree_def)
  have id: "node_id (leaf (Some ''b'') (Some 3)) = Some ''b'' \<and> ''b'' \<noteq> [] \<and> ''b'' \<noteq> ''__proto__''"
    by (simp add: leaf_def)
  obtain m where
    m: "createNodeMapping (Single ex_tree) True (Some 10) = PageRangeMap m"
       "\<forall>n \<in> set (getAllNodes (Single ex_tree)). \<forall>k.
          node_id n = Some k \<and> k \<noteq> [] \<and> k \<noteq> ''__proto__'' \<longrightarrow> k \<in> fst ` set m"
    using page_ranges_entries [of "Single ex_tree" "Some 10"]
    by (elim exE conjE) (rule that)
  from m(1) run have eq: "m = ?m" by simp
  have "''b'' \<in> fst ` set m"
    using m(2) [rule_format, OF mem id] .
  then show ?thesis
    using run run' unfolding eq by (intro conjI)
qed

text \<open>
  C1 as stated fails when the last node that has a \<open>node_id\<close> is followed by a node
  without one: its \<open>end_index\<close> is the follower's \<open>page_index\<close>, here 5, not
  \<open>max_page\<close>, here 10.  It also fails when that node's id is \<open>__proto__\<close>: the node has
  no entry.
\<close>

theorem page_ranges_last_id_counterexample:
  "createNodeMapping ex_gap True (Some 10) =
     PageRangeMap [(''a'', \<lparr>node = leaf (Some ''a'') (Some 1),
                            start_index = Some 1, end_index = Some 5\<rparr>)]
   \<and> getAllNodes ex_gap = [leaf (Some ''a'') (Some 1), leaf None (Some 5)]
   \<and> node_id (leaf None (Some 5) :: unit TreeNode) = None
   \<and> Some (5::int) \<noteq> Some 10
   \<and> getAllNodes (Single (leaf (Some ''__proto__'') (Some 1)))
       = [leaf (Some ''__proto__'') (Some 1)]
   \<and> createNodeMapping (Single (leaf (Some ''__proto__'') (Some 1))) True (Some 10)
       = PageRangeMap []"
  by (simp add: tree_eval ex_gap_def)

section \<open>Duplicate ids\<close>

text \<open>
  C5 (as the code has it).  For every forest and every \<open>node_id\<close> \<open>k\<close> that occurs in it,
  on one node or on several, and is neither the empty string nor \<open>__proto__\<close>, both
  mappings bind \<open>k\<close> to what the last occurrence in traversal order gives:
  flatten-to-map to that node, and flatten-to-page-ranges to that node with its own
  \<open>page_index\<close> and the \<open>page_index\<close> of its successor (or \<open>max_page\<close>).  The empty string
  and \<open>__proto__\<close> are never bound, however often they occur.
\<close>

theorem last_write_wins:
  "\<exists>m r. createNodeMapping tree False maxPage = NodeMap m
     \<and> createNodeMapping tree True maxPage = PageRangeMap r
     \<and> map_of m [] = None \<and> map_of r [] = None
     \<and> map_of m ''__proto__'' = None \<and> map_of r ''__proto__'' = None
     \<and> (\<forall>k i. last_occ (getAllNodes tree) (length (getAllNodes tree)) k i
              \<and> k \<noteq> [] \<and> k \<noteq> ''__proto__''
            \<longrightarrow> map_of m k = Some (getAllNodes tree ! i)
              \<and> map_of r k =
                  Some \<lparr>node = getAllNodes tree ! i,
                        start_index = page_index (getAllNodes tree ! i),
                        end_index = (if i + 1 < length (getAllNodes tree)
                                     then page_index (getAllNodes tree ! (i + 1))
                                     else maxPage)\<rparr>)"
proof (intro exI conjI allI impI)
  let ?all = "getAllNodes tree"
  let ?m = "fold nodeMap_step ?all []"
  let ?r = "fold (rangeMap_step ?all maxPage) [0..<length ?all] []"
  show "createNodeMapping tree False maxPage = NodeMap ?m"
    by (rule createNodeMapping_False)
  show "createNodeMapping tree True maxPage = PageRangeMap ?r"
    by (rule createNodeMapping_True)
  show "map_of ?m [] = None"
    by (simp add: map_of_eq_None_iff keys_nodeMap)
  show "map_of ?r [] = None"
    by (simp add: map_of_eq_None_iff keys_rangeMap)
  show "map_of ?m ''__proto__'' = None"
    by (simp add: map_of_eq_None_iff keys_nodeMap proto_key_def)
  show "map_of ?r ''__proto__'' = None"
    by (simp add: map_of_eq_None_iff keys_rangeMap proto_key_def)
next
  fix k i
  let ?all = "getAllNodes tree"
  assume a: "last_occ ?all (length ?all) k i \<and> k \<noteq> [] \<and> k \<noteq> ''__proto__''"
  then have k: "k \<noteq> []" "k \<noteq> proto_key" "last_occ ?all (length ?all) k i"
    by (simp_all add: proto_key_def)
  show "map_of (fold nodeMap_step ?all []) k = Some (?all ! i)"
    using nodeMap_prefix [of "length ?all" ?all k "?all ! i"] k by auto
  have "map_of (fold (rangeMap_step ?all maxPage) [0..<length ?all] []) k
          = Some (entry_at ?all maxPage i)"
    using rangeMap_prefix [of "length ?all" ?all maxPage k "entry_at ?all maxPage i"] k by auto
  then show "map_of (fold (rangeMap_step ?all maxPage) [0..<length ?all] []) k =
                  Some \<lparr>node = ?all ! i,
                        start_index = page_index (?all ! i),
                        end_index = (if i + 1 < length ?all
                                     then page_index (?all ! (i + 1))
                                     else maxPage)\<rparr>"
    by (simp add: entry_at_def)
qed

theorem last_write_wins_witness:
  "last_occ (getAllNodes ex_dup) (length (getAllNodes ex_dup)) ''a'' 2
   \<and> createNodeMapping ex_dup False (Some 9) =
       NodeMap [(''a'', leaf (Some ''a'') (Some 7)), (''b'', leaf (Some ''b'') (Some 2))]
   \<and> createNodeMapping ex_dup True (Some 9) =
       PageRangeMap
         [(''a'', \<lparr>node = leaf (Some ''a'') (Some 7), start_index = Some 7, end_index = Some 9\<rparr>),
          (''b'', \<lparr>node = leaf (Some ''b'') (Some 2), start_index = Some 2, end_index = Some 7\<rparr>)]
   \<and> getAllNodes ex_dup ! 2 = leaf (Some ''a'') (Some 7)
   \<and> map_of [(''a'', leaf (Some ''a'') (Some 7)), (''b'', leaf (Some ''b'') (Some 2))] ''a''
       = Some (getAllNodes ex_dup ! 2)
   \<and> map_of [(''a'', leaf (Some ''a'') (Some 7)), (''b'', leaf (Some ''b'') (Some 2))] ''''
       = None"
proof -
  let ?m = "[(''a'', leaf (Some ''a'') (Some 7)), (''b'', leaf (Some ''b'') (Some 2))]"
  have occ: "last_occ (getAllNodes ex_dup) (length (getAllNodes ex_dup)) ''a'' 2
               \<and> ''a'' \<noteq> [] \<and> ''a'' \<noteq> ''__proto__''"
    by (simp add: tree_eval ex_dup_def last_occ_def)
  have nth: "getAllNodes ex_dup ! 2 = leaf (Some ''a'') (Some 7)"
    by (simp add: tree_eval ex_dup_def)
  have runs: "createNodeMapping ex_dup False (Some 9) = NodeMap ?m"
    "createNodeMapping ex_dup True (Some 9) =
       PageRangeMap
         [(''a'', \<lparr>node = leaf (Some ''a'') (Some 7), start_index = Some 7, end_index = Some 9\<rparr>),
          (''b'', \<lparr>node = leaf (Some ''b'') (Some 2), start_index = Some 2, end_index = Some 7\<rparr>)]"
    by (simp_all add: tree_eval ex_dup_def)
  obtain m r where
    mr: "createNodeMapping ex_dup False (Some 9) = NodeMap m"
        "map_of m [] = None"
        "\<forall>k i. last_occ (getAllNodes ex_dup) (length (getAllNodes ex_dup)) k i
              \<and> k \<noteq> [] \<and> k \<noteq> ''__proto__''
            \<longrightarrow> map_of m k = Some (getAllNodes ex_dup ! i)
              \<and> map_of r k =
                  Some \<lparr>node = getAllNodes ex_dup ! i,
                        start_index = page_index (getAllNodes ex_dup ! i),
                        end_index = (if i + 1 < length (getAllNodes ex_dup)
                                     then page_index (getAllNodes ex_dup ! (i + 1))
                                     else Some 9)\<rparr>"
    using last_write_wins [of ex_dup "Some 9"] by (elim exE conjE) (rule that)
  from mr(1) runs(1) have eq: "m = ?m" by simp
  have 1: "map_of ?m ''a'' = Some (getAllNodes ex_dup ! 2)"
    using mr(3) [rule_format, OF occ, THEN conjunct1] unfolding eq .
  have 2: "map_of ?m '''' = None"
    using mr(2) unfolding eq .
  show ?thesis
    using occ [THEN conjunct1] runs nth 1 2 by (intro conjI)
qed

text \<open>
  C5 as stated fails for the empty id and for \<open>__proto__\<close>: each occurs on two nodes and
  neither mapping binds it.
\<close>

theorem last_write_wins_empty_id_counterexample:
  "getAllNodes ex_empty2 = [leaf (Some '''') (Some 1), leaf (Some '''') (Some 2)]
   \<and> node_id (leaf (Some '''') (Some 1)) = Some ''''
   \<and> node_id (leaf (Some '''') (Some 2)) = Some ''''
   \<and> createNodeMapping ex_empty2 False None = NodeMap []
   \<and> createNodeMapping ex_empty2 True None = PageRangeMap []
   \<and> getAllNodes ex_proto2
       = [leaf (Some ''__proto__'') (Some 1), leaf (Some ''__proto__'') (Some 2)]
   \<and> createNodeMapping ex_proto2 False None = NodeMap []
   \<and> createNodeMapping ex_proto2 True None = PageRangeMap []"
  by (simp add: tree_eval ex_empty2_def ex_proto2_def)

section \<open>The empty node_id\<close>

lemma children_absent: "children (absent_if_empty t) = map absent_if_empty (children t)"
  by (cases t) (auto simp: children_def split: option.splits)

lemma node_id_absent:
  "node_id (absent_if_empty t) = (if node_id t = Some [] then None else node_id t)"
  by (cases t) simp

lemma page_index_absent: "page_index (absent_if_empty t) = page_index t"
  by (cases t) simp

lemma getAllNodes_tree_absent:
  "getAllNodes_tree (absent_if_empty t) = map absent_if_empty (getAllNodes_tree t)"
proof (induction t rule: getAllNodes_tree.induct)
  case (1 t)
  have "concat (map getAllNodes_tree (children (absent_if_empty t)))
          = concat (map (map absent_if_empty \<circ> getAllNodes_tree) (children t))"
    using 1 by (simp add: children_absent comp_def cong: map_cong)
  then show ?case
    unfolding getAllNodes_tree.simps [of "absent_if_empty t"] getAllNodes_tree.simps [of t]
    by (simp add: map_concat comp_def)
qed

lemma getAllNodes_absent:
  "getAllNodes (absent_if_empty_input tree) = map absent_if_empty (getAllNodes tree)"
  by (cases tree) (simp_all add: getAllNodes_tree_absent map_concat comp_def)

lemma nodeMap_absent:
  "fold nodeMap_step (map absent_if_empty xs) (map (\<lambda>(k, n). (k, absent_if_empty n)) m)
     = map (\<lambda>(k, n). (k, absent_if_empty n)) (fold nodeMap_step xs m)"
proof (induction xs arbitrary: m)
  case Nil then show ?case by simp
next
  case (Cons x xs)
  have "nodeMap_step (absent_if_empty x) (map (\<lambda>(k, n). (k, absent_if_empty n)) m)
          = map (\<lambda>(k, n). (k, absent_if_empty n)) (nodeMap_step x m)"
    by (auto simp: nodeMap_step_def node_id_absent assign_map_values split: option.splits)
  then show ?case using Cons.IH [of "nodeMap_step x m"] by simp
qed

lemma entry_at_absent:
  "i < length all \<Longrightarrow>
   entry_at (map absent_if_empty all) mp i = absent_entry (entry_at all mp i)"
  by (simp add: entry_at_def absent_entry_def page_index_absent)

lemma rangeMap_absent:
  "j \<le> length all \<Longrightarrow>
   fold (rangeMap_step (map absent_if_empty all) mp) [0..<j] []
     = map (\<lambda>(k, e). (k, absent_entry e)) (fold (rangeMap_step all mp) [0..<j] [])"
proof (induction j)
  case 0 then show ?case by simp
next
  case (Suc j)
  then have j: "j < length all" by simp
  show ?case
    using Suc.IH j
    by (auto simp: rangeMap_step_eq node_id_absent entry_at_absent assign_map_values
             split: option.splits)
qed

text \<open>
  C10.  For every forest, a node whose \<open>node_id\<close> is the empty string is left out of
  both mappings exactly as a node without \<open>node_id\<close> is: taking the empty ids away
  from the forest changes neither the keys nor the page ranges (only the stored nodes
  change in the same way), no key is empty and no entry is for a node with an empty
  id.  The node keeps its position in the traversal: a node with an empty id at
  position \<open>p\<close> of the forest, at any depth, is the element of the flattened list at the
  index \<open>j\<close> where the enumeration of positions has \<open>p\<close>, and the entry built from the
  element at index \<open>j - 1\<close> (the entry of every id, neither empty nor \<open>__proto__\<close>, whose
  last occurrence is there) has the \<open>page_index\<close> of the node with the empty id as its
  \<open>end_index\<close>.
\<close>

theorem empty_node_id_as_absent:
  "\<exists>m r. createNodeMapping tree False maxPage = NodeMap m
     \<and> createNodeMapping tree True maxPage = PageRangeMap r
     \<and> createNodeMapping (absent_if_empty_input tree) False maxPage
          = NodeMap (map (\<lambda>(k, n). (k, absent_if_empty n)) m)
     \<and> createNodeMapping (absent_if_empty_input tree) True maxPage
          = PageRangeMap (map (\<lambda>(k, e). (k, absent_entry e)) r)
     \<and> [] \<notin> fst ` set m \<and> [] \<notin> fst ` set r
     \<and> (\<forall>(k, n) \<in> set m. node_id n \<noteq> Some [])
     \<and> (\<forall>(k, e) \<in> set r. node_id (node e) \<noteq> Some [])
     \<and> (\<forall>p n. node_at tree p = Some n \<and> node_id n = Some [] \<longrightarrow>
           (\<exists>j < length (getAllNodes tree).
              positions tree ! j = p \<and> getAllNodes tree ! j = n
              \<and> (\<forall>k. 0 < j
                     \<and> last_occ (getAllNodes tree) (length (getAllNodes tree)) k (j - 1)
                     \<and> k \<noteq> [] \<and> k \<noteq> ''__proto__''
                   \<longrightarrow> map_of r k =
                         Some \<lparr>node = getAllNodes tree ! (j - 1),
                               start_index = page_index (getAllNodes tree ! (j - 1)),
                               end_index = page_index n\<rparr>)))"
proof (intro exI conjI)
  let ?all = "getAllNodes tree"
  let ?m = "fold nodeMap_step ?all []"
  let ?r = "fold (rangeMap_step ?all maxPage) [0..<length ?all] []"
  show "createNodeMapping tree False maxPage = NodeMap ?m"
    by (rule createNodeMapping_False)
  show "createNodeMapping tree True maxPage = PageRangeMap ?r"
    by (rule createNodeMapping_True)
  show "createNodeMapping (absent_if_empty_input tree) False maxPage
          = NodeMap (map (\<lambda>(k, n). (k, absent_if_empty n)) ?m)"
    using nodeMap_absent [of ?all "[]"]
    by (simp add: createNodeMapping_False getAllNodes_absent)
  show "createNodeMapping (absent_if_empty_input tree) True maxPage
          = PageRangeMap (map (\<lambda>(k, e). (k, absent_entry e)) ?r)"
    using rangeMap_absent [of "length ?all" ?all maxPage]
    by (simp add: createNodeMapping_True getAllNodes_absent)
  show "[] \<notin> fst ` set ?m" by (simp add: keys_nodeMap)
  show "[] \<notin> fst ` set ?r" by (simp add: keys_rangeMap)
  show "\<forall>(k, n) \<in> set ?m. node_id n \<noteq> Some []"
  proof (clarify)
    fix k n assume mem: "(k, n) \<in> set ?m" and emp: "node_id n = Some []"
    obtain i where "k \<noteq> []" "last_occ ?all (length ?all) k i" "n = ?all ! i"
      using nodeMap_entry [OF mem] by (elim exE conjE) (rule that)
    with emp show False by (simp add: last_occ_def)
  qed
  show "\<forall>(k, e) \<in> set ?r. node_id (node e) \<noteq> Some []"
  proof (clarify)
    fix k e assume mem: "(k, e) \<in> set ?r" and emp: "node_id (node e) = Some []"
    obtain i where "k \<noteq> []" "last_occ ?all (length ?all) k i" "e = entry_at ?all maxPage i"
      using rangeMap_entry [OF mem] by (elim exE conjE) (rule that)
    with emp show False by (simp add: last_occ_def entry_at_def)
  qed
  show "\<forall>p n. node_at tree p = Some n \<and> node_id n = Some [] \<longrightarrow>
           (\<exists>j < length ?all.
              positions tree ! j = p \<and> ?all ! j = n
              \<and> (\<forall>k. 0 < j \<and> last_occ ?all (length ?all) k (j - 1)
                     \<and> k \<noteq> [] \<and> k \<noteq> ''__proto__''
                   \<longrightarrow> map_of ?r k =
                         Some \<lparr>node = ?all ! (j - 1),
                               start_index = page_index (?all ! (j - 1)),
                               end_index = page_index n\<rparr>))"
  proof (intro allI impI)
    fix p n
    assume a: "node_at tree p = Some n \<and> node_id n = Some []"
    have len: "length (positions tree) = length ?all"
      using arg_cong [OF nodes_positions [of tree], of length] by simp
    from a have "p \<in> set (positions tree)"
      by (simp add: set_positions)
    then obtain j where j: "j < length (positions tree)" "positions tree ! j = p"
      by (auto simp: in_set_conv_nth)
    have "map (node_at tree) (positions tree) ! j = map Some ?all ! j"
      by (simp only: nodes_positions)
    with j len a have n: "?all ! j = n" by simp
    have ent: "map_of ?r k =
                 Some \<lparr>node = ?all ! (j - 1), start_index = page_index (?all ! (j - 1)),
                       end_index = page_index n\<rparr>"
      if k: "0 < j \<and> last_occ ?all (length ?all) k (j - 1) \<and> k \<noteq> [] \<and> k \<noteq> ''__proto__''"
      for k
    proof -
      from k have k': "k \<noteq> []" "k \<noteq> proto_key" "last_occ ?all (length ?all) k (j - 1)"
        by (simp_all add: proto_key_def)
      have "map_of ?r k = Some (entry_at ?all maxPage (j - 1))"
        using rangeMap_prefix [of "length ?all" ?all maxPage k "entry_at ?all maxPage (j - 1)"] k'
        by auto
      moreover have "j - 1 + 1 = j" using k by simp
      ultimately show ?thesis
        using j(1) len n by (simp add: entry_at_def)
    qed
    show "\<exists>j < length ?all.
              positions tree ! j = p \<and> ?all ! j = n
              \<and> (\<forall>k. 0 < j \<and> last_occ ?all (length ?all) k (j - 1)
                     \<and> k \<noteq> [] \<and> k \<noteq> ''__proto__''
                   \<longrightarrow> map_of ?r k =
                         Some \<lparr>node = ?all ! (j - 1),
                               start_index = page_index (?all ! (j - 1)),
                               end_index = page_index n\<rparr>)"
      using j len n ent by (intro exI [of _ j] conjI allI impI) simp_all
  qed
qed

theorem empty_node_id_as_absent_witness:
  "getAllNodes ex_nested =
     [TreeNode (Some ''r'') (Some 1) None
        (Some [TreeNode (Some ''a'') (Some 2) None (Some [leaf (Some '''') (Some 3)]) (),
               leaf (Some ''b'') (Some 5)]) (),
      TreeNode (Some ''a'') (Some 2) None (Some [leaf (Some '''') (Some 3)]) (),
      leaf (Some '''') (Some 3),
      leaf (Some ''b'') (Some 5)]
   \<and> positions ex_nested = [[], [0], [0, 0], [1]]
   \<and> node_at ex_nested [0, 0] = Some (leaf (Some '''') (Some 3))
   \<and> node_id (leaf (Some '''') (Some 3)) = Some []
   \<and> last_occ (getAllNodes ex_nested) (length (getAllNodes ex_nested)) ''a'' 1
   \<and> createNodeMapping ex_nested True (Some 9) =
       PageRangeMap
         [(''r'', \<lparr>node = TreeNode (Some ''r'') (Some 1) None
                     (Some [TreeNode (Some ''a'') (Some 2) None
                              (Some [leaf (Some '''') (Some 3)]) (),
                            leaf (Some ''b'') (Some 5)]) (),
                   start_index = Some 1, end_index = Some 2\<rparr>),
          (''a'', \<lparr>node = TreeNode (Some ''a'') (Some 2) None
                     (Some [leaf (Some '''') (Some 3)]) (),
                   start_index = Some 2, end_index = Some 3\<rparr>),
          (''b'', \<lparr>node = leaf (Some ''b'') (Some 5),
                   start_index = Some 5, end_index = Some 9\<rparr>)]
   \<and> createNodeMapping (absent_if_empty_input ex_nested) True (Some 9) =
       PageRangeMap
         [(''r'', \<lparr>node = TreeNode (Some ''r'') (Some 1) None
                     (Some [TreeNode (Some ''a'') (Some 2) None
                              (Some [leaf None (Some 3)]) (),
                            leaf (Some ''b'') (Some 5)]) (),
                   start_index = Some 1, end_index = Some 2\<rparr>),
          (''a'', \<lparr>node = TreeNode (Some ''a'') (Some 2) None
                     (Some [leaf None (Some 3)]) (),
                   start_index = Some 2, end_index = Some 3\<rparr>),
          (''b'', \<lparr>node = leaf (Some ''b'') (Some 5),
                   start_index = Some 5, end_index = Some 9\<rparr>)]
   \<and> map_of
         [(''r'', \<lparr>node = TreeNode (Some ''r'') (Some 1) None
                     (Some [TreeNode (Some ''a'') (Some 2) None
                              (Some [leaf (Some '''') (Some 3)]) (),
                            leaf (Some ''b'') (Some 5)]) (),
                   start_index = Some 1, end_index = Some 2\<rparr>),
          (''a'', \<lparr>node = TreeNode (Some ''a'') (Some 2) None
                     (Some [leaf (Some '''') (Some 3)]) (),
                   start_index = Some 2, end_index = Some 3\<rparr>),
          (''b'', \<lparr>node = leaf (Some ''b'') (Some 5),
                   start_index = Some 5, end_index = Some 9\<rparr>)] ''a''
       = Some \<lparr>node = getAllNodes ex_nested ! (2 - 1),
               start_index = page_index (getAllNodes ex_nested ! (2 - 1)),
               end_index = page_index (leaf (Some '''') (Some 3))\<rparr>"
proof -
  let ?e = "leaf (Some '''') (Some 3)"
  let ?a = "TreeNode (Some ''a'') (Some 2) None (Some [?e]) ()"
  let ?b = "leaf (Some ''b'') (Some 5)"
  let ?root = "TreeNode (Some ''r'') (Some 1) None (Some [?a, ?b]) ()"
  let ?r = "[(''r'', \<lparr>node = ?root, start_index = Some 1, end_index = Some 2\<rparr>),
             (''a'', \<lparr>node = ?a, start_index = Some 2, end_index = Some 3\<rparr>),
             (''b'', \<lparr>node = ?b, start_index = Some 5, end_index = Some 9\<rparr>)]"
  let ?all = "getAllNodes ex_nested"
  have flat: "?all = [?root, ?a, ?e, ?b]"
    by (simp add: ex_nested_def tree_eval)
  have pos: "positions ex_nested = [[], [0], [0, 0], [1]]"
    by (simp add: ex_nested_def positions_tree.simps children_def leaf_def)
  have at: "node_at ex_nested [0, 0] = Some ?e \<and> node_id ?e = Some []"
    by (simp add: ex_nested_def children_def leaf_def)
  have occ: "last_occ ?all (length ?all) ''a'' 1"
    unfolding flat by (simp add: last_occ_def leaf_def)
  have run: "createNodeMapping ex_nested True (Some 9) = PageRangeMap ?r"
    by (simp add: ex_nested_def tree_eval)
  obtain m r where
    mr: "createNodeMapping ex_nested True (Some 9) = PageRangeMap r"
        "createNodeMapping (absent_if_empty_input ex_nested) True (Some 9)
          = PageRangeMap (map (\<lambda>(k, e). (k, absent_entry e)) r)"
        "\<forall>p n. node_at ex_nested p = Some n \<and> node_id n = Some [] \<longrightarrow>
           (\<exists>j < length ?all.
              positions ex_nested ! j = p \<and> ?all ! j = n
              \<and> (\<forall>k. 0 < j \<and> last_occ ?all (length ?all) k (j - 1)
                     \<and> k \<noteq> [] \<and> k \<noteq> ''__proto__''
                   \<longrightarrow> map_of r k =
                         Some \<lparr>node = ?all ! (j - 1),
                               start_index = page_index (?all ! (j - 1)),
                               end_index = page_index n\<rparr>))"
    using empty_node_id_as_absent [of ex_nested "Some 9"]
    by (elim exE conjE) (rule that)
  from mr(1) run have eq: "r = ?r" by simp
  have abs: "createNodeMapping (absent_if_empty_input ex_nested) True (Some 9) =
       PageRangeMap
         [(''r'', \<lparr>node = TreeNode (Some ''r'') (Some 1) None
                     (Some [TreeNode (Some ''a'') (Some 2) None
                              (Some [leaf None (Some 3)]) (),
                            leaf (Some ''b'') (Some 5)]) (),
                   start_index = Some 1, end_index = Some 2\<rparr>),
          (''a'', \<lparr>node = TreeNode (Some ''a'') (Some 2) None
                     (Some [leaf None (Some 3)]) (),
                   start_index = Some 2, end_index = Some 3\<rparr>),
          (''b'', \<lparr>node = leaf (Some ''b'') (Some 5),
                   start_index = Some 5, end_index = Some 9\<rparr>)]"
    using mr(2) unfolding eq by (simp add: absent_entry_def leaf_def)
  obtain j where
    j: "j < length ?all" "positions ex_nested ! j = [0, 0]"
       "\<forall>k. 0 < j \<and> last_occ ?all (length ?all) k (j - 1)
              \<and> k \<noteq> [] \<and> k \<noteq> ''__proto__''
            \<longrightarrow> map_of r k =
                  Some \<lparr>node = ?all ! (j - 1),
                        start_index = page_index (?all ! (j - 1)),
                        end_index = page_index ?e\<rparr>"
    using mr(3) [rule_format, OF at] by (elim exE conjE) (rule that)
  have "j = 0 \<or> j = 1 \<or> j = 2 \<or> j = 3"
    using j(1) unfolding flat by auto
  with j(2) have j2: "j = 2"
    unfolding pos by auto
  have pre: "0 < (2::nat) \<and> last_occ ?all (length ?all) ''a'' (2 - 1)
               \<and> ''a'' \<noteq> [] \<and> ''a'' \<noteq> ''__proto__''"
    using occ by simp
  have ent: "map_of ?r ''a'' =
               Some \<lparr>node = ?all ! (2 - 1), start_index = page_index (?all ! (2 - 1)),
                     end_index = page_index ?e\<rparr>"
    using j(3) [unfolded j2, rule_format, OF pre] unfolding eq .
  show ?thesis
    by (intro conjI flat pos at [THEN conjunct1] at [THEN conjunct2] occ run abs ent)
qed

section \<open>Facts about the field filter\<close>

lemma removeFields_JObj:
  "removeFields (JObj obj) fs ml = JObj (fold (removeFields_step fs ml) obj [])"
  by (simp add: removeFields_step_def)







section \<open>Truncation law\<close>




section \<open>Idempotence\<close>

lemma fold_step_set:
  "(k, w) \<in> set (fold (removeFields_step fs ml) obj out) \<Longrightarrow>
   (k, w) \<in> set out \<or>
   (\<exists>v. (k, v) \<in> set obj \<and> \<not> List.member fs k \<and> w = removeFields v fs ml)"
proof (induction obj arbitrary: out)
  case Nil
  then show ?case by simp
next
  case (Cons kv obj)
  obtain k' v' where kv: "kv = (k', v')" by (cases kv)
  from Cons.prems have "(k, w) \<in> set (fold (removeFields_step fs ml) obj (removeFields_step fs ml kv out))"
    by simp
  then consider "(k, w) \<in> set (removeFields_step fs ml kv out)"
    | "\<exists>v. (k, v) \<in> set obj \<and> \<not> List.member fs k \<and> w = removeFields v fs ml"
    using Cons.IH by blast
  then show ?case
  proof cases
    case 1
    then show ?thesis
      using set_assign [of out k' "removeFields v' fs ml"] kv
      by (auto simp: removeFields_step_def split: if_splits)
  next
    case 2
    then show ?thesis by auto
  qed
qed

lemma fold_step_distinct:
  "distinct (map fst out) \<Longrightarrow> distinct (map fst (fold (removeFields_step fs ml) obj out))"
proof (induction obj arbitrary: out)
  case Nil
  then show ?case by simp
next
  case (Cons kv obj)
  have "distinct (map fst (removeFields_step fs ml kv out))"
    using Cons.prems by (cases kv) (simp add: removeFields_step_def distinct_assign)
  then show ?case using Cons.IH by simp
qed

lemma fold_step_no_proto:
  "proto_key \<notin> fst ` set out \<Longrightarrow>
   proto_key \<notin> fst ` set (fold (removeFields_step fs ml) obj out)"
proof (induction obj arbitrary: out)
  case Nil
  then show ?case by simp
next
  case (Cons kv obj)
  have "proto_key \<notin> fst ` set (removeFields_step fs ml kv out)"
    using Cons.prems by (cases kv) (simp add: removeFields_step_def proto_not_key_assign)
  then show ?case using Cons.IH by simp
qed

lemma fold_step_id:
  assumes "distinct (map fst (out @ l))"
    and "proto_key \<notin> fst ` set l"
    and "\<And>k v. (k, v) \<in> set l \<Longrightarrow> \<not> List.member fs k \<and> removeFields v fs ml = v"
  shows "fold (removeFields_step fs ml) l out = out @ l"
  using assms
proof (induction l arbitrary: out)
  case Nil
  then show ?case by simp
next
  case (Cons kv l)
  obtain k v where kv: "kv = (k, v)" by (cases kv)
  have fresh: "k \<notin> fst ` set out"
    using Cons.prems(1) kv by auto
  have own: "k \<noteq> proto_key"
    using Cons.prems(2) kv by auto
  have keep: "\<not> List.member fs k" "removeFields v fs ml = v"
    using Cons.prems(3) [of k v] kv by simp_all
  have step: "removeFields_step fs ml kv out = out @ [kv]"
    using fresh own keep kv by (simp add: removeFields_step_def assign_fresh)
  have "fold (removeFields_step fs ml) l (out @ [kv]) = (out @ [kv]) @ l"
  proof (rule Cons.IH)
    show "distinct (map fst ((out @ [kv]) @ l))" using Cons.prems(1) by simp
    show "proto_key \<notin> fst ` set l" using Cons.prems(2) by simp
    show "\<not> List.member fs k' \<and> removeFields v' fs ml = v'" if "(k', v') \<in> set l" for k' v'
      using Cons.prems(3) [of k' v'] that by simp
  qed
  then show ?case using step by simp
qed

lemma removeFields_string_idem:
  assumes "valid_maxLen ml"
  shows "removeFields (removeFields (JStr s) fs ml) fs ml = removeFields (JStr s) fs ml"
  using assms
  by (cases ml) (auto simp: valid_maxLen_def slice_to_def min_def)

text \<open>
  C9 (as the code has it).  For every nested value, every field set and every
  truncation length that is absent or not negative, applying the filter to its own
  output gives the output again.
\<close>

theorem removeFields_idempotent:
  assumes "valid_maxLen maxLen"
  shows "removeFields (removeFields data fields' maxLen) fields' maxLen
           = removeFields data fields' maxLen"
  using assms
proof (induction data fields' maxLen rule: removeFields.induct)
  case (1 items fs ml)
  then show ?case by (simp cong: map_cong)
next
  case (2 obj fs ml)
  let ?r = "fold (removeFields_step fs ml) obj []"
  have "fold (removeFields_step fs ml) ?r [] = [] @ ?r"
  proof (rule fold_step_id)
    show "distinct (map fst ([] @ ?r))"
      using fold_step_distinct [of "[]" fs ml obj] by simp
    show "proto_key \<notin> fst ` set ?r"
      by (rule fold_step_no_proto) simp
    fix k w assume "(k, w) \<in> set ?r"
    then obtain v where v: "(k, v) \<in> set obj" "\<not> List.member fs k" "w = removeFields v fs ml"
      using fold_step_set [of k w fs ml obj "[]"] by auto
    then show "\<not> List.member fs k \<and> removeFields w fs ml = w"
      using "2.IH" [of "(k, v)" k v] "2.prems" by simp
  qed
  then show ?case
    unfolding removeFields_JObj by simp
next
  case (3 data fs ml)
  then show ?case by (rule removeFields_string_idem)
qed simp_all

theorem removeFields_idempotent_witness:
  "valid_maxLen (Some 3)
   \<and> removeFields ex_json [''text''] (Some 3) =
       JObj [(''a'', JStr ''hel...''), (''b'', JArr [JStr ''xy'', JNum 7, JObj [(''c'', JStr ''abc...'')]])]
   \<and> removeFields
         (JObj [(''a'', JStr ''hel...''), (''b'', JArr [JStr ''xy'', JNum 7, JObj [(''c'', JStr ''abc...'')]])])
         [''text''] (Some 3) =
       JObj [(''a'', JStr ''hel...''), (''b'', JArr [JStr ''xy'', JNum 7, JObj [(''c'', JStr ''abc...'')]])]"
proof -
  have ok: "valid_maxLen (Some 3)" by (simp add: valid_maxLen_def)
  have run: "removeFields ex_json [''text''] (Some 3) =
       JObj [(''a'', JStr ''hel...''), (''b'', JArr [JStr ''xy'', JNum 7, JObj [(''c'', JStr ''abc...'')]])]"
    by (simp add: ex_json_def assign_def slice_to_def)
  from removeFields_idempotent [OF ok, of ex_json "[''text'']"] run ok
  show ?thesis by simp
qed

text \<open>
  C9 as stated fails for a negative limit: every application drops one character and
  appends three.
\<close>

theorem removeFields_not_idempotent_counterexample:
  "removeFields (JStr ''abc'') [] (Some (- 1)) = JStr ''ab...''
   \<and> removeFields (removeFields (JStr ''abc'') [] (Some (- 1))) [] (Some (- 1)) = JStr ''ab.....''
   \<and> JStr ''ab.....'' \<noteq> JStr ''ab...''"
  by (simp add: slice_to_def)

section \<open>Facts about the streaming decoder\<close>

lemma split_lines_not_Nil: "split_lines s \<noteq> []"
  by (induction s) (auto split: list.splits)

lemma split_lines_append_newline:
  "split_lines (t @ CHR 0x0A # u) = split_lines t @ split_lines u"
proof (induction t)
  case Nil
  then show ?case by simp
next
  case (Cons c t)
  then show ?case
    using split_lines_not_Nil [of t] by (auto split: list.splits)
qed

lemma text_lines_append:
  "streamText_lines parse (xs @ ys) =
     (let (a, r) = streamText_lines parse xs in
      if r then (a, True)
      else (let (b, r') = streamText_lines parse ys in (a @ b, r')))"
  by (induction xs) (auto simp: Let_def split: option.splits prod.splits)

lemma raw_lines_append:
  "streamRaw_lines parse (xs @ ys) =
     (let (a, r) = streamRaw_lines parse xs in
      if r then (a, True)
      else (let (b, r') = streamRaw_lines parse ys in (a @ b, r')))"
  by (induction xs) (auto simp: Let_def split: option.splits prod.splits)

lemma text_lines_done: "done_line l \<Longrightarrow> streamText_lines parse (l # post) = ([], True)"
  by (simp add: done_line_def)

lemma raw_lines_done: "done_line l \<Longrightarrow> streamRaw_lines parse (l # post) = ([], True)"
  by (simp add: done_line_def)

lemma text_lines_no_done:
  "\<forall>x \<in> set xs. \<not> done_line x \<Longrightarrow> snd (streamText_lines parse xs) = False"
  by (induction xs) (auto simp: done_line_def Let_def split: option.splits prod.splits)

lemma raw_lines_no_done:
  "\<forall>x \<in> set xs. \<not> done_line x \<Longrightarrow> snd (streamRaw_lines parse xs) = False"
  by (induction xs) (auto simp: done_line_def Let_def split: option.splits prod.splits)

lemma streamText_append:
  assumes "\<forall>c \<in> set cs. \<forall>x \<in> set (split_lines (decode c)). \<not> done_line x"
  shows "streamText decode parse (cs @ ds) =
           (fst (streamText decode parse cs) @ fst (streamText decode parse ds),
            snd (streamText decode parse ds))"
  using assms
proof (induction cs)
  case Nil
  then show ?case by simp
next
  case (Cons c cs)
  have "snd (streamText_lines parse (split_lines (decode c))) = False"
    using Cons.prems by (intro text_lines_no_done) simp
  then show ?case
    using Cons by (auto simp: Let_def split: prod.splits)
qed

lemma streamRaw_append:
  assumes "\<forall>c \<in> set cs. \<forall>x \<in> set (split_lines (decode c)). \<not> done_line x"
  shows "streamRaw decode parse (cs @ ds) =
           (fst (streamRaw decode parse cs) @ fst (streamRaw decode parse ds),
            snd (streamRaw decode parse ds))"
  using assms
proof (induction cs)
  case Nil
  then show ?case by simp
next
  case (Cons c cs)
  have "snd (streamRaw_lines parse (split_lines (decode c))) = False"
    using Cons.prems by (intro raw_lines_no_done) simp
  then show ?case
    using Cons by (auto simp: Let_def split: prod.splits)
qed

lemma text_lines_pre_done:
  assumes "done_line l" "\<forall>x \<in> set pre. \<not> done_line x"
  shows "streamText_lines parse (pre @ l # post) = (fst (streamText_lines parse pre), True)"
  using text_lines_no_done [OF assms(2), of parse] text_lines_done [OF assms(1), of parse post]
  by (simp add: text_lines_append split: prod.splits)

lemma raw_lines_pre_done:
  assumes "done_line l" "\<forall>x \<in> set pre. \<not> done_line x"
  shows "streamRaw_lines parse (pre @ l # post) = (fst (streamRaw_lines parse pre), True)"
  using raw_lines_no_done [OF assms(2), of parse] raw_lines_done [OF assms(1), of parse post]
  by (simp add: raw_lines_append split: prod.splits)

lemma split_lines_aligned:
  assumes "line_aligned t"
  shows "fst (streamText_lines parse (split_lines (t @ u))) =
           (let (a, r) = streamText_lines parse (split_lines t) in
            if r then a else a @ fst (streamText_lines parse (split_lines u)))"
    and "snd (streamText_lines parse (split_lines (t @ u))) =
           (let (a, r) = streamText_lines parse (split_lines t) in
            if r then True else snd (streamText_lines parse (split_lines u)))"
proof -
  have both: "streamText_lines parse (split_lines (t @ u)) =
           (let (a, r) = streamText_lines parse (split_lines t) in
            if r then (a, True)
            else (let (b, r') = streamText_lines parse (split_lines u) in (a @ b, r')))"
  proof (cases "t = []")
    case True
    then show ?thesis by (simp add: startsWith_def split: prod.splits)
  next
    case False
    then obtain t' where t: "t = t' @ [CHR 0x0A]"
      using assms by (metis line_aligned_def append_butlast_last_id)
    have 1: "split_lines (t @ u) = split_lines t' @ split_lines u"
      using t split_lines_append_newline [of t' u] by simp
    have 2: "split_lines t = split_lines t' @ [[]]"
      using t split_lines_append_newline [of t' "[]"] by simp
    have 3: "streamText_lines parse (split_lines t) = streamText_lines parse (split_lines t')"
      unfolding 2 by (simp add: text_lines_append startsWith_def split: prod.splits)
    show ?thesis
      unfolding 1 3 by (simp add: text_lines_append)
  qed
  show "fst (streamText_lines parse (split_lines (t @ u))) =
           (let (a, r) = streamText_lines parse (split_lines t) in
            if r then a else a @ fst (streamText_lines parse (split_lines u)))"
    unfolding both by (simp split: prod.splits)
  show "snd (streamText_lines parse (split_lines (t @ u))) =
           (let (a, r) = streamText_lines parse (split_lines t) in
            if r then True else snd (streamText_lines parse (split_lines u)))"
    unfolding both by (simp split: prod.splits)
qed

lemma streamText_aligned:
  assumes "\<forall>c \<in> set chunks. line_aligned (decode c)"
  shows "fst (streamText decode parse chunks) =
           fst (streamText_lines parse (split_lines (concat (map decode chunks))))"
  using assms
proof (induction chunks)
  case Nil
  then show ?case by (simp add: startsWith_def)
next
  case (Cons c chunks)
  have al: "line_aligned (decode c)" using Cons.prems by simp
  have ih: "fst (streamText decode parse chunks) =
           fst (streamText_lines parse (split_lines (concat (map decode chunks))))"
    using Cons by simp
  obtain ys r where yr: "streamText_lines parse (split_lines (decode c)) = (ys, r)"
    by (cases "streamText_lines parse (split_lines (decode c))")
  have "fst (streamText decode parse (c # chunks)) =
          (if r then ys else ys @ fst (streamText decode parse chunks))"
    using yr by (simp add: Let_def split: prod.splits)
  also have "\<dots> = fst (streamText_lines parse
                     (split_lines (decode c @ concat (map decode chunks))))"
    using split_lines_aligned(1) [OF al, of parse "concat (map decode chunks)"] ih yr
    by simp
  finally show ?case by simp
qed

lemma streamText_same_lines:
  assumes "streamText_lines parse (split_lines (decode v)) = streamText_lines parse (split_lines (decode v'))"
  shows "fst (streamText decode parse (earlier @ v # rest))
           = fst (streamText decode parse (earlier @ v' # rest))
       \<and> length (snd (streamText decode parse (earlier @ v # rest)))
           = length (snd (streamText decode parse (earlier @ v' # rest)))"
  using assms by (induction earlier) (auto simp: Let_def split: prod.splits)

lemma streamRaw_same_lines:
  assumes "streamRaw_lines parse (split_lines (decode v)) = streamRaw_lines parse (split_lines (decode v'))"
  shows "fst (streamRaw decode parse (earlier @ v # rest))
           = fst (streamRaw decode parse (earlier @ v' # rest))
       \<and> length (snd (streamRaw decode parse (earlier @ v # rest)))
           = length (snd (streamRaw decode parse (earlier @ v' # rest)))"
  using assms by (induction earlier) (auto simp: Let_def split: prod.splits)

lemma text_lines_skip:
  assumes "startsWith l ''data: ''" "trim (drop 6 l) \<noteq> ''[DONE]''" "parse (trim (drop 6 l)) = None"
  shows "streamText_lines parse (pre @ l # post) = streamText_lines parse (pre @ post)"
proof -
  have step: "streamText_lines parse (l # post) = streamText_lines parse post"
    using assms by simp
  show ?thesis
    unfolding text_lines_append [of parse pre] step by (rule refl)
qed

lemma raw_lines_skip:
  assumes "startsWith l ''data: ''" "trim (drop 6 l) \<noteq> ''[DONE]''" "parse (trim (drop 6 l)) = None"
  shows "streamRaw_lines parse (pre @ l # post) = streamRaw_lines parse (pre @ post)"
proof -
  have step: "streamRaw_lines parse (l # post) = streamRaw_lines parse post"
    using assms by simp
  show ?thesis
    unfolding raw_lines_append [of parse pre] step by (rule refl)
qed

text \<open>Rules that evaluate the decoder on a concrete stream.\<close>

lemmas stream_eval =
  decode_ascii_def parse_sample_def frame_A_def quoted_def chunk_A_def
  startsWith_def trim_def is_space_def delta_content_def nullish_def Let_def

lemma sample_lines:
  "split_lines (''data: '' @ frame_A @ ''\<newline>data: [DONE]\<newline>'')
     = [''data: '' @ frame_A, ''data: [DONE]'', []]"
  by (simp add: frame_A_def quoted_def)

lemma frame_A_payload: "trim (drop 6 (''data: '' @ frame_A)) = frame_A"
  by (simp add: frame_A_def quoted_def trim_def is_space_def)

lemma frame_A_not_done: "frame_A \<noteq> ''[DONE]''"
  by (simp add: frame_A_def quoted_def)

lemma delta_content_chunk_A: "delta_content chunk_A = Some (JStr ''A'')"
  by (simp add: delta_content_def chunk_A_def nullish_def)

lemma sample_text_lines:
  assumes "parse frame_A = Some chunk_A"
  shows "streamText_lines parse [''data: '' @ frame_A, ''data: [DONE]'', []] = ([JStr ''A''], True)"
proof -
  have 1: "startsWith (''data: '' @ frame_A) ''data: ''"
    by (simp add: startsWith_def)
  have 2: "streamText_lines parse [''data: [DONE]'', []] = ([], True)"
    by (simp add: startsWith_def trim_def is_space_def)
  show ?thesis
    unfolding streamText_lines.simps(2) [of parse "''data: '' @ frame_A"]
    using 1 2 frame_A_payload frame_A_not_done assms delta_content_chunk_A
    by (simp add: Let_def)
qed

section \<open>The end-of-stream sentinel\<close>

text \<open>
  What the code does with the sentinel when no line is cut by a read.  In text mode, a
  stream whose lines are \<open>data: {"choices":[{"delta":{"content":"A"}}]}\<close> followed by
  \<open>data: [DONE]\<close>, read in chunks that end at line boundaries, yields exactly the one
  fragment \<open>"A"\<close>.  In both modes, the first line of a decoded chunk whose payload is
  \<open>[DONE]\<close> after trimming ends the sequence at once: the result is what the earlier
  chunks and the earlier lines of this chunk yield, the later lines of the chunk are
  not processed, and the chunks after it are left unread.
\<close>

lemma done_line_returns:
  "((\<forall>c \<in> set chunks. line_aligned (decode c))
      \<and> concat (map decode chunks) = ''data: '' @ frame_A @ ''\<newline>data: [DONE]\<newline>''
      \<and> parse frame_A = Some chunk_A
     \<longrightarrow> fst (streamText decode parse chunks) = [JStr ''A''])
   \<and> (split_lines (decode buf) = pre @ l # post \<and> done_line l
        \<and> (\<forall>x \<in> set pre. \<not> done_line x)
        \<and> (\<forall>c \<in> set earlier. \<forall>x \<in> set (split_lines (decode c)). \<not> done_line x)
     \<longrightarrow> streamText decode parse (earlier @ buf # rest)
           = (fst (streamText decode parse earlier) @ fst (streamText_lines parse pre), rest)
       \<and> streamRaw decode parse (earlier @ buf # rest)
           = (fst (streamRaw decode parse earlier) @ fst (streamRaw_lines parse pre), rest))"
proof (intro conjI impI)
  assume a: "(\<forall>c \<in> set chunks. line_aligned (decode c))
      \<and> concat (map decode chunks) = ''data: '' @ frame_A @ ''\<newline>data: [DONE]\<newline>''
      \<and> parse frame_A = Some chunk_A"
  then have "fst (streamText decode parse chunks) =
           fst (streamText_lines parse (split_lines (concat (map decode chunks))))"
    by (intro streamText_aligned) simp
  also have "\<dots> = fst (streamText_lines parse [''data: '' @ frame_A, ''data: [DONE]'', []])"
    using a sample_lines by simp
  also have "\<dots> = [JStr ''A'']"
    using a sample_text_lines [of parse] by simp
  finally show "fst (streamText decode parse chunks) = [JStr ''A'']" .
next
  assume b: "split_lines (decode buf) = pre @ l # post \<and> done_line l
        \<and> (\<forall>x \<in> set pre. \<not> done_line x)
        \<and> (\<forall>c \<in> set earlier. \<forall>x \<in> set (split_lines (decode c)). \<not> done_line x)"
  have t: "streamText decode parse (buf # rest) = (fst (streamText_lines parse pre), rest)"
    using b text_lines_pre_done [of l pre parse post] by (simp add: Let_def)
  show "streamText decode parse (earlier @ buf # rest)
           = (fst (streamText decode parse earlier) @ fst (streamText_lines parse pre), rest)"
    using b streamText_append [of earlier decode parse "buf # rest"] t by simp
  have r: "streamRaw decode parse (buf # rest) = (fst (streamRaw_lines parse pre), rest)"
    using b raw_lines_pre_done [of l pre parse post] by (simp add: Let_def)
  show "streamRaw decode parse (earlier @ buf # rest)
           = (fst (streamRaw decode parse earlier) @ fst (streamRaw_lines parse pre), rest)"
    using b streamRaw_append [of earlier decode parse "buf # rest"] r by simp
qed

lemma done_line_returns_example:
  "line_aligned (decode_ascii sse_A) \<and> line_aligned (decode_ascii sse_done)
   \<and> parse_sample frame_A = Some chunk_A
   \<and> fst (streamText decode_ascii parse_sample [sse_A, sse_done]) = [JStr ''A'']
   \<and> done_line ''data:  [DONE] ''
   \<and> streamText decode_ascii parse_sample
         ([sse_A] @ (sse_A @ ''data:  [DONE] \<newline>'' @ sse_A) # [sse_A])
       = ([JStr ''A'', JStr ''A''], [sse_A])
   \<and> streamRaw decode_ascii parse_sample
         ([sse_A] @ (sse_A @ ''data:  [DONE] \<newline>'' @ sse_A) # [sse_A])
       = ([chunk_A, chunk_A], [sse_A])"
proof -
  have a1: "\<forall>c \<in> set [sse_A, sse_done]. line_aligned (decode_ascii c)"
    by (simp add: line_aligned_def sse_A_def sse_done_def decode_ascii_def)
  have a2: "concat (map decode_ascii [sse_A, sse_done])
              = ''data: '' @ frame_A @ ''\<newline>data: [DONE]\<newline>''"
    by (simp add: sse_A_def sse_done_def decode_ascii_def)
  have a3: "parse_sample frame_A = Some chunk_A"
    by (simp add: parse_sample_def)
  have b1: "split_lines (decode_ascii (sse_A @ ''data:  [DONE] \<newline>'' @ sse_A))
              = [''data: '' @ frame_A] @ ''data:  [DONE] '' # [''data: '' @ frame_A, []]"
    by (simp add: sse_A_def stream_eval)
  have b2: "done_line ''data:  [DONE] ''"
    by (simp add: done_line_def startsWith_def trim_def is_space_def)
  have b3: "\<forall>x \<in> set [''data: '' @ frame_A]. \<not> done_line x"
    by (simp add: done_line_def stream_eval)
  have b4: "\<forall>c \<in> set [sse_A]. \<forall>x \<in> set (split_lines (decode_ascii c)). \<not> done_line x"
    by (simp add: sse_A_def done_line_def stream_eval)
  have e1: "fst (streamText decode_ascii parse_sample [sse_A]) = [JStr ''A'']"
    "fst (streamText_lines parse_sample [''data: '' @ frame_A]) = [JStr ''A'']"
    "fst (streamRaw decode_ascii parse_sample [sse_A]) = [chunk_A]"
    "fst (streamRaw_lines parse_sample [''data: '' @ frame_A]) = [chunk_A]"
    by (simp_all add: sse_A_def stream_eval)
  note main = done_line_returns [where chunks = "[sse_A, sse_done]" and decode = decode_ascii
      and parse = parse_sample and ?buf = "sse_A @ ''data:  [DONE] \<newline>'' @ sse_A"
      and pre = "[''data: '' @ frame_A]" and l = "''data:  [DONE] ''"
      and post = "[''data: '' @ frame_A, []]" and earlier = "[sse_A]" and rest = "[sse_A]"]
  have 1: "fst (streamText decode_ascii parse_sample [sse_A, sse_done]) = [JStr ''A'']"
    using main [THEN conjunct1] a1 a2 a3 by blast
  have 2: "streamText decode_ascii parse_sample
         ([sse_A] @ (sse_A @ ''data:  [DONE] \<newline>'' @ sse_A) # [sse_A])
       = ([JStr ''A'', JStr ''A''], [sse_A])
   \<and> streamRaw decode_ascii parse_sample
         ([sse_A] @ (sse_A @ ''data:  [DONE] \<newline>'' @ sse_A) # [sse_A])
       = ([chunk_A, chunk_A], [sse_A])"
    using main [THEN conjunct2, THEN mp, OF conjI, OF b1 conjI, OF b2 conjI, OF b3 b4] e1
    by simp
  have 0: "line_aligned (decode_ascii sse_A) \<and> line_aligned (decode_ascii sse_done)"
    using a1 by simp
  show ?thesis
    using 0 a3 1 b2 2 by blast
qed

text \<open>
  C6 (the code at the failing input).  The stream of the example, the line
  \<open>data: {"choices":[{"delta":{"content":"A"}}]}\<close> followed by the line \<open>data: [DONE]\<close>,
  yields the one fragment \<open>"A"\<close> when it arrives in one chunk and yields nothing when the
  first read ends inside the prefix of the first line.  A \<open>[DONE]\<close> line that arrives in
  two reads does not end the sequence: the frame after it is yielded too, in text mode
  and in raw mode.  The decoder keeps no partial line from one read to the next.
\<close>

theorem done_line_split_ignored:
  "''da'' @ (''ta: '' @ frame_A @ ''\<newline>'' @ sse_done) = sse_A @ sse_done
   \<and> sse_A @ sse_done = ''data: '' @ frame_A @ ''\<newline>data: [DONE]\<newline>''
   \<and> streamText decode_ascii parse_sample [sse_A @ sse_done] = ([JStr ''A''], [])
   \<and> streamText decode_ascii parse_sample [''da'', ''ta: '' @ frame_A @ ''\<newline>'' @ sse_done]
       = ([], [])
   \<and> (sse_A @ ''data: [DO'') @ (''NE]\<newline>'' @ sse_A) = sse_A @ sse_done @ sse_A
   \<and> streamText decode_ascii parse_sample [sse_A @ sse_done @ sse_A] = ([JStr ''A''], [])
   \<and> streamText decode_ascii parse_sample [sse_A @ ''data: [DO'', ''NE]\<newline>'' @ sse_A]
       = ([JStr ''A'', JStr ''A''], [])
   \<and> streamRaw decode_ascii parse_sample [sse_A @ sse_done @ sse_A] = ([chunk_A], [])
   \<and> streamRaw decode_ascii parse_sample [sse_A @ ''data: [DO'', ''NE]\<newline>'' @ sse_A]
       = ([chunk_A, chunk_A], [])"
  by (simp add: sse_A_def sse_done_def stream_eval)

section \<open>Malformed frames\<close>

text \<open>
  What the code does with a payload that does not parse when no line is cut by a read.
  In both modes, a line of a decoded chunk with the prefix \<open>data: \<close> whose payload is not
  \<open>[DONE]\<close> and does not parse as JSON is skipped: the lines of its chunk give the same
  result with and without it, and the whole stream yields the same sequence as the
  stream with that line taken out of its chunk.
\<close>

lemma unparsed_line_skipped:
  assumes "startsWith l ''data: ''"
    and "trim (drop 6 l) \<noteq> ''[DONE]''"
    and "parse (trim (drop 6 l)) = None"
  shows "streamText_lines parse (pre @ l # post) = streamText_lines parse (pre @ post)
       \<and> streamRaw_lines parse (pre @ l # post) = streamRaw_lines parse (pre @ post)
       \<and> (split_lines (decode buf) = pre @ l # post \<and> split_lines (decode buf') = pre @ post
            \<longrightarrow> fst (streamText decode parse (earlier @ buf # rest))
                  = fst (streamText decode parse (earlier @ buf' # rest))
              \<and> fst (streamRaw decode parse (earlier @ buf # rest))
                  = fst (streamRaw decode parse (earlier @ buf' # rest)))"
proof (intro conjI impI)
  show t: "streamText_lines parse (pre @ l # post) = streamText_lines parse (pre @ post)"
    using assms by (rule text_lines_skip)
  show r: "streamRaw_lines parse (pre @ l # post) = streamRaw_lines parse (pre @ post)"
    using assms by (rule raw_lines_skip)
  assume "split_lines (decode buf) = pre @ l # post \<and> split_lines (decode buf') = pre @ post"
  then have eq: "split_lines (decode buf) = pre @ l # post" "split_lines (decode buf') = pre @ post"
    by simp_all
  have "streamText_lines parse (split_lines (decode buf))
          = streamText_lines parse (split_lines (decode buf'))"
    by (simp only: eq t)
  then show "fst (streamText decode parse (earlier @ buf # rest))
          = fst (streamText decode parse (earlier @ buf' # rest))"
    by (rule streamText_same_lines [THEN conjunct1])
  have "streamRaw_lines parse (split_lines (decode buf))
          = streamRaw_lines parse (split_lines (decode buf'))"
    by (simp only: eq r)
  then show "fst (streamRaw decode parse (earlier @ buf # rest))
          = fst (streamRaw decode parse (earlier @ buf' # rest))"
    by (rule streamRaw_same_lines [THEN conjunct1])
qed

lemma unparsed_line_skipped_example:
  "startsWith ''data: not-json'' ''data: ''
   \<and> trim (drop 6 ''data: not-json'') \<noteq> ''[DONE]''
   \<and> parse_sample (trim (drop 6 ''data: not-json'')) = None
   \<and> streamText_lines parse_sample ([] @ ''data: not-json'' # [''data: '' @ frame_A, []])
       = ([JStr ''A''], False)
   \<and> streamRaw_lines parse_sample ([] @ ''data: not-json'' # [''data: '' @ frame_A, []])
       = ([chunk_A], False)
   \<and> fst (streamText decode_ascii parse_sample ([sse_A] @ (''data: not-json\<newline>'' @ sse_A) # [sse_A]))
       = [JStr ''A'', JStr ''A'', JStr ''A'']"
proof -
  have h1: "startsWith ''data: not-json'' ''data: ''"
    by (simp add: startsWith_def)
  have h2: "trim (drop 6 ''data: not-json'') \<noteq> ''[DONE]''"
    by (simp add: trim_def is_space_def)
  have h3: "parse_sample (trim (drop 6 ''data: not-json'')) = None"
    by (simp add: stream_eval)
  have l1: "split_lines (decode_ascii (''data: not-json\<newline>'' @ sse_A))
              = [] @ ''data: not-json'' # [''data: '' @ frame_A, []]"
    by (simp add: sse_A_def stream_eval)
  have l2: "split_lines (decode_ascii sse_A) = [] @ [''data: '' @ frame_A, []]"
    by (simp add: sse_A_def stream_eval)
  have t: "streamText_lines parse_sample ([] @ [''data: '' @ frame_A, []]) = ([JStr ''A''], False)"
    by (simp add: stream_eval)
  have r: "streamRaw_lines parse_sample ([] @ [''data: '' @ frame_A, []]) = ([chunk_A], False)"
    by (simp add: stream_eval)
  have s: "fst (streamText decode_ascii parse_sample ([sse_A] @ sse_A # [sse_A]))
             = [JStr ''A'', JStr ''A'', JStr ''A'']"
    by (simp add: sse_A_def stream_eval)
  note main = unparsed_line_skipped [where l = "''data: not-json''" and parse = parse_sample
      and pre = "[]" and post = "[''data: '' @ frame_A, []]" and decode = decode_ascii
      and ?buf = "''data: not-json\<newline>'' @ sse_A" and ?buf' = sse_A
      and earlier = "[sse_A]" and rest = "[sse_A]", OF h1 h2 h3]
  have 1: "streamText_lines parse_sample ([] @ ''data: not-json'' # [''data: '' @ frame_A, []])
       = ([JStr ''A''], False)"
    using main [THEN conjunct1] t by simp
  have 2: "streamRaw_lines parse_sample ([] @ ''data: not-json'' # [''data: '' @ frame_A, []])
       = ([chunk_A], False)"
    using main [THEN conjunct2, THEN conjunct1] r by simp
  have 3: "fst (streamText decode_ascii parse_sample ([sse_A] @ (''data: not-json\<newline>'' @ sse_A) # [sse_A]))
       = [JStr ''A'', JStr ''A'', JStr ''A'']"
    using main [THEN conjunct2, THEN conjunct2, THEN mp, OF conjI, OF l1 l2, THEN conjunct1] s
    by simp
  show ?thesis
    by (intro conjI h1 h2 h3 1 2 3)
qed

text \<open>
  C7 (the code at the failing input).  The line
  \<open>data: {"choices":[{"delta":{"content":"A"}}]}x\<close> has the prefix and a payload that is
  not valid JSON.  When it arrives in one chunk it is skipped.  When a read ends before
  the \<open>x\<close>, the first part is taken for a line of its own and is yielded, as the
  fragment \<open>"A"\<close> in text mode and as the parsed object in raw mode.  And a valid frame
  after the skipped line \<open>data: not-json\<close> is yielded only if no read ends inside it.
  The decoder keeps no partial line from one read to the next.
\<close>

theorem malformed_line_split_yielded:
  "(''data: '' @ frame_A) @ ''x\<newline>'' = ''data: '' @ frame_A @ ''x\<newline>''
   \<and> startsWith (''data: '' @ frame_A @ ''x'') ''data: ''
   \<and> trim (drop 6 (''data: '' @ frame_A @ ''x'')) = frame_A @ ''x''
   \<and> parse_sample (frame_A @ ''x'') = None
   \<and> streamText decode_ascii parse_sample [''data: '' @ frame_A @ ''x\<newline>''] = ([], [])
   \<and> streamText decode_ascii parse_sample [''data: '' @ frame_A, ''x\<newline>'']
       = ([JStr ''A''], [])
   \<and> streamRaw decode_ascii parse_sample [''data: '' @ frame_A @ ''x\<newline>''] = ([], [])
   \<and> streamRaw decode_ascii parse_sample [''data: '' @ frame_A, ''x\<newline>'']
       = ([chunk_A], [])
   \<and> (''data: not-json\<newline>da'') @ (''ta: '' @ frame_A @ ''\<newline>'')
       = ''data: not-json\<newline>'' @ sse_A
   \<and> streamText decode_ascii parse_sample [''data: not-json\<newline>'' @ sse_A]
       = ([JStr ''A''], [])
   \<and> streamText decode_ascii parse_sample
         [''data: not-json\<newline>da'', ''ta: '' @ frame_A @ ''\<newline>''] = ([], [])"
  by (simp add: sse_A_def stream_eval)

section \<open>Chunk boundaries\<close>

text \<open>
  C2 (the code at the failing input).  The same bytes, once in one chunk and once split
  inside the prefix \<open>data: \<close>, do not give the same sequence: the single chunk yields the
  frame, the split one yields nothing, in text mode and in raw mode.  The decoder keeps
  no partial line from one read to the next.
\<close>

theorem split_line_dropped:
  "''da'' @ (''ta: '' @ frame_A @ ''\<newline>'') = sse_A
   \<and> streamText decode_ascii parse_sample [sse_A] = ([JStr ''A''], [])
   \<and> streamText decode_ascii parse_sample [''da'', ''ta: '' @ frame_A @ ''\<newline>''] = ([], [])
   \<and> streamRaw decode_ascii parse_sample [sse_A] = ([chunk_A], [])
   \<and> streamRaw decode_ascii parse_sample [''da'', ''ta: '' @ frame_A @ ''\<newline>''] = ([], [])"
  by (simp add: sse_A_def stream_eval)

end
